theory Spec2Isabelle
  imports Main "HOL-Library.Multiset"
begin

section \<open>The list package: a circular doubly linked list with a sentinel\<close>

text \<open>
  The three error values of the list package (\<open>ErrRoot\<close>, \<open>ErrNotInList\<close>,
  \<open>ErrIsListElem\<close>). A Go \<open>error\<close> result is an \<open>LRUListError option\<close>, with
  \<open>None\<close> for \<open>nil\<close>.
\<close>

datatype LRUListError = ErrRoot | ErrNotInList | ErrIsListElem

text \<open>
  Pointers. The store holds one list \<open>l\<close>. A non-nil \<open>*LRUListNode\<close> is either
  \<open>&l.root\<close>, the sentinel embedded in the list struct, or the address of a node made by
  \<open>NewLRUListNode\<close>; a \<open>*LRUList\<close> is \<open>nil\<close> or \<open>l\<close>. \<open>None\<close> is \<open>nil\<close>.
\<close>

datatype ref = Root | Node nat

type_synonym ptr = "ref option"

datatype lref = L

type_synonym lptr = "lref option"

text \<open>
  The struct \<open>LRUListNode\<close>. The fields \<open>next\<close>, \<open>prev\<close> and \<open>list\<close> of the source are
  \<open>nxt\<close>, \<open>prv\<close> and \<open>lst\<close> here; the atomic loads and stores are plain reads and writes,
  the model being sequential.
\<close>

record ('k, 'v) LRUListNode =
  nxt :: ptr
  prv :: ptr
  lst :: lptr
  Key :: 'k
  Value :: 'v

text \<open>
  The struct \<open>LRUList\<close> together with the memory its nodes live in: \<open>heap l Root\<close> is the
  field \<open>root\<close>, \<open>heap l (Node n)\<close> the node at address \<open>n\<close>, and \<open>fresh\<close> the next
  address the allocator hands out. The length is a Go \<open>int\<close>; it counts allocated nodes,
  so it stays far from the 64-bit bound and is an unbounded integer here. The two locks
  are left out.
\<close>

record ('k, 'v) LRUList =
  heap :: "ref \<Rightarrow> ('k, 'v) LRUListNode"
  len :: int
  fresh :: nat

text \<open>
  A call either returns or panics on a nil dereference. Either way the store is the one
  the call leaves behind, so every operation yields an outcome and a store.
\<close>

datatype 'a outcome = Panic | Return 'a

definition set_nxt :: "ref \<Rightarrow> ptr \<Rightarrow> ('k, 'v) LRUList \<Rightarrow> ('k, 'v) LRUList" where
  "set_nxt r p l = l\<lparr>heap := (heap l)(r := (heap l r)\<lparr>nxt := p\<rparr>)\<rparr>"

definition set_prv :: "ref \<Rightarrow> ptr \<Rightarrow> ('k, 'v) LRUList \<Rightarrow> ('k, 'v) LRUList" where
  "set_prv r p l = l\<lparr>heap := (heap l)(r := (heap l r)\<lparr>prv := p\<rparr>)\<rparr>"

definition set_lst :: "ref \<Rightarrow> lptr \<Rightarrow> ('k, 'v) LRUList \<Rightarrow> ('k, 'v) LRUList" where
  "set_lst r p l = l\<lparr>heap := (heap l)(r := (heap l r)\<lparr>lst := p\<rparr>)\<rparr>"

text \<open>
  \<open>Next\<close> and \<open>Prev\<close>, called on a non-nil receiver: the neighbour, or \<open>nil\<close> when the
  node has no list or the neighbour is the sentinel of its list.
\<close>

definition Next :: "ref \<Rightarrow> ('k, 'v) LRUList \<Rightarrow> ptr" where
  "Next node l =
     (let n = nxt (heap l node)
      in if lst (heap l node) \<noteq> None \<and> n \<noteq> Some Root then n else None)"

definition Prev :: "ref \<Rightarrow> ('k, 'v) LRUList \<Rightarrow> ptr" where
  "Prev node l =
     (let p = prv (heap l node)
      in if lst (heap l node) \<noteq> None \<and> p \<noteq> Some Root then p else None)"

text \<open>\<open>NewLRUListNode\<close> allocates a node and stores the five fields.\<close>

definition NewLRUListNode ::
  "'k \<Rightarrow> 'v \<Rightarrow> lptr \<Rightarrow> ptr \<Rightarrow> ptr \<Rightarrow> ('k, 'v) LRUList \<Rightarrow> ref \<times> ('k, 'v) LRUList" where
  "NewLRUListNode key val lp nx pv l =
     (Node (fresh l),
      l\<lparr>heap := (heap l)(Node (fresh l) :=
           \<lparr>nxt = nx, prv = pv, lst = lp, Key = key, Value = val\<rparr>),
        fresh := Suc (fresh l)\<rparr>)"

text \<open>
  \<open>NewLRUList\<close>: the sentinel points to itself and to the list. \<open>zk\<close> and \<open>zv\<close> are the
  zero values of the key and value types, which the sentinel and every cell not yet
  allocated hold.
\<close>

definition NewLRUList :: "'k \<Rightarrow> 'v \<Rightarrow> ('k, 'v) LRUList" where
  "NewLRUList zk zv =
     \<lparr>heap = (\<lambda>r. \<lparr>nxt = None, prv = None, lst = None, Key = zk, Value = zv\<rparr>)
         (Root := \<lparr>nxt = Some Root, prv = Some Root, lst = Some L, Key = zk, Value = zv\<rparr>),
      len = 0,
      fresh = 0\<rparr>"

definition Front :: "('k, 'v) LRUList \<Rightarrow> ptr" where
  "Front l = Prev Root l"

definition Back :: "('k, 'v) LRUList \<Rightarrow> ptr" where
  "Back l = Next Root l"

text \<open>\<open>Size\<close> and \<open>Empty\<close> of the list; the cache has methods of the same names.\<close>

definition LRUList_Size :: "('k, 'v) LRUList \<Rightarrow> int" where
  "LRUList_Size l = len l"

definition LRUList_Empty :: "('k, 'v) LRUList \<Rightarrow> bool" where
  "LRUList_Empty l = (len l = 0)"

text \<open>
  \<open>insert\<close> (named \<open>insert_node\<close> here, \<open>insert\<close> being the insertion into a set) links
  \<open>node\<close> after \<open>at\<close>. Reading a field of a nil pointer panics; the stores done before
  a panic stay in the store.
\<close>

definition insert_node ::
  "ptr \<Rightarrow> ptr \<Rightarrow> ('k, 'v) LRUList \<Rightarrow> (ptr \<times> LRUListError option) outcome \<times> ('k, 'v) LRUList" where
  "insert_node node at l =
     (case node of
        None \<Rightarrow> (Panic, l)
      | Some nd \<Rightarrow>
          if lst (heap l nd) \<noteq> None \<or> nxt (heap l nd) \<noteq> None \<or> prv (heap l nd) \<noteq> None
          then (Return (None, Some ErrIsListElem), l)
          else (case at of
             None \<Rightarrow> (Panic, l)
           | Some a \<Rightarrow>
               if lst (heap l a) \<noteq> Some L then (Return (None, Some ErrNotInList), l)
               else
                 let l1 = set_lst nd (Some L) l;
                     next = nxt (heap l1 a);
                     l2 = set_nxt a (Some nd) l1;
                     l3 = set_prv nd (Some a) l2;
                     l4 = set_nxt nd next l3
                 in (case next of
                       None \<Rightarrow> (Panic, l4)
                     | Some n \<Rightarrow>
                         let l5 = set_prv n (Some nd) l4
                         in (Return (Some nd, None), l5\<lparr>len := len l5 + 1\<rparr>))))"


definition pushFront ::
  "ptr \<Rightarrow> ('k, 'v) LRUList \<Rightarrow> (ptr \<times> LRUListError option) outcome \<times> ('k, 'v) LRUList" where
  "pushFront node l = insert_node node (prv (heap l Root)) l"

definition PushFront :: "'k \<Rightarrow> 'v \<Rightarrow> ('k, 'v) LRUList \<Rightarrow> ptr outcome \<times> ('k, 'v) LRUList" where
  "PushFront key val l =
     (let (node, l1) = NewLRUListNode key val None None None l
      in case pushFront (Some node) l1 of
           (Panic, l2) \<Rightarrow> (Panic, l2)
         | (Return (n, _), l2) \<Rightarrow> (Return n, l2))"



text \<open>
  \<open>Remove\<close> unlinks \<open>at\<close>. The first field read of \<open>at\<close> is \<open>at.list\<close>, so a nil \<open>at\<close>
  panics there, before either error check.
\<close>

definition Remove ::
  "ptr \<Rightarrow> ('k, 'v) LRUList \<Rightarrow> (ptr \<times> LRUListError option) outcome \<times> ('k, 'v) LRUList" where
  "Remove at l =
     (case at of
        None \<Rightarrow> (Panic, l)
      | Some a \<Rightarrow>
          if lst (heap l a) \<noteq> Some L then (Return (None, Some ErrNotInList), l)
          else if a = Root then (Return (None, Some ErrRoot), l)
          else (case prv (heap l a) of
             None \<Rightarrow> (Panic, l)
           | Some p \<Rightarrow>
               let l1 = set_nxt p (nxt (heap l a)) l
               in (case nxt (heap l1 a) of
                     None \<Rightarrow> (Panic, l1)
                   | Some n \<Rightarrow>
                       let l2 = set_prv n (prv (heap l1 a)) l1;
                           l3 = set_nxt a None l2;
                           l4 = set_prv a None l3;
                           l5 = set_lst a None l4
                       in (Return (Some a, None), l5\<lparr>len := len l5 - 1\<rparr>))))"

definition PopFront ::
  "('k, 'v) LRUList \<Rightarrow> (ptr \<times> LRUListError option) outcome \<times> ('k, 'v) LRUList" where
  "PopFront l = Remove (Front l) l"

definition PopBack ::
  "('k, 'v) LRUList \<Rightarrow> (ptr \<times> LRUListError option) outcome \<times> ('k, 'v) LRUList" where
  "PopBack l = Remove (Back l) l"

definition MoveToFront ::
  "ptr \<Rightarrow> ('k, 'v) LRUList \<Rightarrow> LRUListError option outcome \<times> ('k, 'v) LRUList" where
  "MoveToFront at l =
     (case Remove at l of
        (Panic, l1) \<Rightarrow> (Panic, l1)
      | (Return (node, err), l1) \<Rightarrow>
          if err \<noteq> None then (Return err, l1)
          else (case pushFront node l1 of
             (Panic, l2) \<Rightarrow> (Panic, l2)
           | (Return (_, err2), l2) \<Rightarrow>
               if err2 \<noteq> None then (Return err2, l2) else (Return None, l2)))"


section \<open>The cache package\<close>

text \<open>
  The errors a cache operation returns: an error of the list, the error of
  \<open>NewLRUCache\<close> ("expected positive number for capacity, got: ...") and the error of
  \<open>Delete\<close> ("can't delete node as no node has key ...").
\<close>

datatype 'k error = ListError LRUListError | InvalidCapacity int | NotFound 'k

text \<open>
  The table, a Go \<open>map[K]*LRUListNode\<close>. The key type \<open>K\<close> is any comparable type, and
  the map compares keys with its \<open>==\<close>, which is \<open>eq\<close> here. It need not be reflexive: a
  \<open>float64\<close> NaN differs from itself, so a lookup of NaN misses, a delete of NaN removes
  nothing and an assignment to NaN adds an entry each time. The map is the list of its
  entries; their order means nothing. \<open>map_lookup\<close> is \<open>v, ok := m[key]\<close> (\<open>None\<close> when
  \<open>ok\<close> is false), \<open>map_delete\<close> is \<open>delete(m, key)\<close> and \<open>map_assign\<close> is \<open>m[key] = v\<close>,
  which replaces the entry of an equal key or adds an entry.
\<close>

definition map_lookup :: "('k \<Rightarrow> 'k \<Rightarrow> bool) \<Rightarrow> ('k \<times> 'a) list \<Rightarrow> 'k \<Rightarrow> 'a option" where
  "map_lookup eq m key = map_option snd (find (\<lambda>e. eq (fst e) key) m)"

definition map_delete :: "('k \<Rightarrow> 'k \<Rightarrow> bool) \<Rightarrow> ('k \<times> 'a) list \<Rightarrow> 'k \<Rightarrow> ('k \<times> 'a) list" where
  "map_delete eq m key = filter (\<lambda>e. \<not> eq (fst e) key) m"

definition map_assign ::
  "('k \<Rightarrow> 'k \<Rightarrow> bool) \<Rightarrow> ('k \<times> 'a) list \<Rightarrow> 'k \<Rightarrow> 'a \<Rightarrow> ('k \<times> 'a) list" where
  "map_assign eq m key v = filter (\<lambda>e. \<not> eq (fst e) key) m @ [(key, v)]"

text \<open>
  The struct \<open>LRUCache\<close>: the list (with its store), the table from keys to node
  pointers and the capacity. The mutex is left out. Every method that reads or writes
  the table takes the \<open>==\<close> of the key type as its first argument.
\<close>

record ('k, 'v) LRUCache =
  lruList :: "('k, 'v) LRUList"
  cache :: "('k \<times> ptr) list"
  capacity :: int

definition NewLRUCache :: "'k \<Rightarrow> 'v \<Rightarrow> int \<Rightarrow> 'k error + ('k, 'v) LRUCache" where
  "NewLRUCache zk zv cap =
     (if cap < 0 then Inl (InvalidCapacity cap)
      else Inr \<lparr>lruList = NewLRUList zk zv, cache = [], capacity = cap\<rparr>)"

text \<open>
  \<open>Set\<close>, in the three steps of the source: remove the node the key has, if any; pop the
  back when the list is full, and delete the key of the popped node from the table
  (\<open>node.Key\<close> panics on a nil node); push a new node to the front and store it in the
  table.
\<close>

definition Set_remove_old ::
  "('k \<Rightarrow> 'k \<Rightarrow> bool) \<Rightarrow> 'k \<Rightarrow> ('k, 'v) LRUCache \<Rightarrow> unit outcome \<times> ('k, 'v) LRUCache" where
  "Set_remove_old eq key c =
     (case map_lookup eq (cache c) key of
        Some node \<Rightarrow>
          (case Remove node (lruList c) of
             (Panic, l1) \<Rightarrow> (Panic, c\<lparr>lruList := l1\<rparr>)
           | (Return _, l1) \<Rightarrow> (Return (), c\<lparr>lruList := l1\<rparr>))
      | None \<Rightarrow> (Return (), c))"

definition Set_evict ::
  "('k \<Rightarrow> 'k \<Rightarrow> bool) \<Rightarrow> ('k, 'v) LRUCache \<Rightarrow> unit outcome \<times> ('k, 'v) LRUCache" where
  "Set_evict eq c =
     (if LRUList_Size (lruList c) = capacity c
      then (case PopBack (lruList c) of
              (Panic, l1) \<Rightarrow> (Panic, c\<lparr>lruList := l1\<rparr>)
            | (Return (node, _), l1) \<Rightarrow>
                (case node of
                   None \<Rightarrow> (Panic, c\<lparr>lruList := l1\<rparr>)
                 | Some r \<Rightarrow>
                     (Return (),
                      c\<lparr>lruList := l1, cache := map_delete eq (cache c) (Key (heap l1 r))\<rparr>)))
      else (Return (), c))"

definition Set_push ::
  "('k \<Rightarrow> 'k \<Rightarrow> bool) \<Rightarrow> 'k \<Rightarrow> 'v \<Rightarrow> ('k, 'v) LRUCache \<Rightarrow>
   unit outcome \<times> ('k, 'v) LRUCache" where
  "Set_push eq key val c =
     (case PushFront key val (lruList c) of
        (Panic, l1) \<Rightarrow> (Panic, c\<lparr>lruList := l1\<rparr>)
      | (Return node, l1) \<Rightarrow>
          (Return (), c\<lparr>lruList := l1, cache := map_assign eq (cache c) key node\<rparr>))"

definition Set ::
  "('k \<Rightarrow> 'k \<Rightarrow> bool) \<Rightarrow> 'k \<Rightarrow> 'v \<Rightarrow> ('k, 'v) LRUCache \<Rightarrow>
   unit outcome \<times> ('k, 'v) LRUCache" where
  "Set eq key val c =
     (case Set_remove_old eq key c of
        (Panic, c1) \<Rightarrow> (Panic, c1)
      | (Return _, c1) \<Rightarrow>
          (case Set_evict eq c1 of
             (Panic, c2) \<Rightarrow> (Panic, c2)
           | (Return _, c2) \<Rightarrow> Set_push eq key val c2))"

text \<open>
  \<open>Get\<close>: \<open>zv\<close> is the zero value of the value type, which the named result holds on a
  miss. The error of \<open>MoveToFront\<close> is dropped, as in the source.
\<close>

definition Get ::
  "('k \<Rightarrow> 'k \<Rightarrow> bool) \<Rightarrow> 'v \<Rightarrow> 'k \<Rightarrow> ('k, 'v) LRUCache \<Rightarrow>
   ('v \<times> bool) outcome \<times> ('k, 'v) LRUCache" where
  "Get eq zv key c =
     (case map_lookup eq (cache c) key of
        Some node \<Rightarrow>
          (case MoveToFront node (lruList c) of
             (Panic, l1) \<Rightarrow> (Panic, c\<lparr>lruList := l1\<rparr>)
           | (Return _, l1) \<Rightarrow>
               (case node of
                  None \<Rightarrow> (Panic, c\<lparr>lruList := l1\<rparr>)
                | Some r \<Rightarrow> (Return (Value (heap l1 r), True), c\<lparr>lruList := l1\<rparr>)))
      | None \<Rightarrow> (Return (zv, False), c))"

definition Delete ::
  "('k \<Rightarrow> 'k \<Rightarrow> bool) \<Rightarrow> 'k \<Rightarrow> ('k, 'v) LRUCache \<Rightarrow>
   'k error option outcome \<times> ('k, 'v) LRUCache" where
  "Delete eq key c =
     (case map_lookup eq (cache c) key of
        None \<Rightarrow> (Return (Some (NotFound key)), c)
      | Some node \<Rightarrow>
          (case Remove node (lruList c) of
             (Panic, l1) \<Rightarrow> (Panic, c\<lparr>lruList := l1\<rparr>)
           | (Return (_, err), l1) \<Rightarrow>
               (Return (map_option ListError err),
                c\<lparr>lruList := l1, cache := map_delete eq (cache c) key\<rparr>)))"

definition Contains :: "('k \<Rightarrow> 'k \<Rightarrow> bool) \<Rightarrow> 'k \<Rightarrow> ('k, 'v) LRUCache \<Rightarrow> bool" where
  "Contains eq key c = (map_lookup eq (cache c) key \<noteq> None)"

text \<open>
  \<open>Flush\<close> ranges over the table, in an order the runtime picks: \<open>es\<close> are the entries
  of the table in that order. The loop removes the node of each entry it visits; then
  the table is cleared.
\<close>

fun Flush_range ::
  "('k \<times> ptr) list \<Rightarrow> ('k, 'v) LRUList \<Rightarrow> unit outcome \<times> ('k, 'v) LRUList" where
  "Flush_range [] l = (Return (), l)"
| "Flush_range (e # es) l =
     (case Remove (snd e) l of
        (Panic, l1) \<Rightarrow> (Panic, l1)
      | (Return _, l1) \<Rightarrow> Flush_range es l1)"

definition Flush ::
  "('k \<times> ptr) list \<Rightarrow> ('k, 'v) LRUCache \<Rightarrow> unit outcome \<times> ('k, 'v) LRUCache" where
  "Flush es c =
     (case Flush_range es (lruList c) of
        (Panic, l1) \<Rightarrow> (Panic, c\<lparr>lruList := l1\<rparr>)
      | (Return _, l1) \<Rightarrow> (Return (), c\<lparr>lruList := l1, cache := []\<rparr>))"

definition Size :: "('k, 'v) LRUCache \<Rightarrow> int" where
  "Size c = LRUList_Size (lruList c)"

definition Capacity :: "('k, 'v) LRUCache \<Rightarrow> int" where
  "Capacity c = capacity c"

definition Empty :: "('k, 'v) LRUCache \<Rightarrow> bool" where
  "Empty c = (LRUList_Size (lruList c) = 0)"

section \<open>Well-formed lists\<close>

text \<open>
  \<open>link h x y\<close>: in the heap \<open>h\<close>, \<open>y\<close> is the next node of \<open>x\<close> and \<open>x\<close> the previous
  node of \<open>y\<close>. \<open>chain h xs\<close>: each element of \<open>xs\<close> is linked to the one after it.
\<close>

definition link :: "(ref \<Rightarrow> ('k, 'v) LRUListNode) \<Rightarrow> ref \<Rightarrow> ref \<Rightarrow> bool" where
  "link h x y = (nxt (h x) = Some y \<and> prv (h y) = Some x)"

fun chain :: "(ref \<Rightarrow> ('k, 'v) LRUListNode) \<Rightarrow> ref list \<Rightarrow> bool" where
  "chain h (x # y # zs) = (link h x y \<and> chain h (y # zs))"
| "chain h zs = True"

text \<open>
  The invariant of the list: \<open>rs\<close> are the addresses of its nodes, from the back (the
  node after the sentinel) to the front (the node before it). The ring closes at the
  sentinel, the nodes are pairwise distinct and allocated, a node points to the list if
  and only if it is one of \<open>rs\<close>, and \<open>len\<close> is their number.
\<close>

definition linv :: "('k, 'v) LRUList \<Rightarrow> nat list \<Rightarrow> bool" where
  "linv l rs =
     (chain (heap l) (Root # map Node rs @ [Root]) \<and> distinct rs \<and>
      lst (heap l Root) = Some L \<and>
      (\<forall>n. (lst (heap l (Node n)) = Some L) = (n \<in> set rs)) \<and>
      (\<forall>n\<in>set rs. n < fresh l) \<and>
      len l = int (length rs))"



section \<open>What a caller sees of the list\<close>

text \<open>
  \<open>nodes_of l\<close>: the nodes of the list as a caller reads them, from \<open>Back\<close> through
  \<open>Next\<close>, at most \<open>Size\<close> of them; the last one is the front. \<open>linked l r\<close>: the node
  \<open>r\<close> is reached from the sentinel along the next pointers, before they come back to the
  sentinel.
\<close>

fun walk :: "nat \<Rightarrow> ptr \<Rightarrow> ('k, 'v) LRUList \<Rightarrow> ref list" where
  "walk 0 p l = []"
| "walk (Suc f) None l = []"
| "walk (Suc f) (Some r) l = r # walk f (Next r l) l"

definition nodes_of :: "('k, 'v) LRUList \<Rightarrow> ref list" where
  "nodes_of l = walk (nat (LRUList_Size l)) (Back l) l"

inductive linked :: "('k, 'v) LRUList \<Rightarrow> ref \<Rightarrow> bool" for l where
  linked_first: "nxt (heap l Root) = Some r \<Longrightarrow> r \<noteq> Root \<Longrightarrow> linked l r"
| linked_next: "linked l q \<Longrightarrow> nxt (heap l q) = Some r \<Longrightarrow> r \<noteq> Root \<Longrightarrow> linked l r"

section \<open>Well-formed caches\<close>

text \<open>
  \<open>binv\<close>: the list of the cache is well-formed and no longer than the capacity. This
  much holds whatever the table does.
\<close>

definition binv :: "('k, 'v) LRUCache \<Rightarrow> nat list \<Rightarrow> bool" where
  "binv c rs = (linv (lruList c) rs \<and> int (length rs) \<le> capacity c)"

text \<open>
  The caches a caller can build: \<open>NewLRUCache\<close> with a capacity it accepts, then any
  calls of \<open>Set\<close>, \<open>Get\<close>, \<open>Delete\<close> and \<open>Flush\<close> (the other methods do not change the
  cache). \<open>Flush\<close> visits the entries of the table in any order, each entry once. The
  cache after a call is reachable whether the call returned or panicked.
\<close>

inductive reach :: "('k \<Rightarrow> 'k \<Rightarrow> bool) \<Rightarrow> ('k, 'v) LRUCache \<Rightarrow> bool" for eq where
  reach_NewLRUCache: "NewLRUCache zk zv cap = Inr c \<Longrightarrow> reach eq c"
| reach_Set: "reach eq c \<Longrightarrow> reach eq (snd (Set eq key val c))"
| reach_Get: "reach eq c \<Longrightarrow> reach eq (snd (Get eq zv key c))"
| reach_Delete: "reach eq c \<Longrightarrow> reach eq (snd (Delete eq key c))"
| reach_Flush: "reach eq c \<Longrightarrow> mset es = mset (cache c) \<Longrightarrow> reach eq (snd (Flush es c))"

text \<open>
  \<open>ents l rs\<close>: the key and value of each of the nodes \<open>rs\<close>.
\<close>

definition ents :: "('k, 'v) LRUList \<Rightarrow> nat list \<Rightarrow> ('k \<times> 'v) list" where
  "ents l rs = map (\<lambda>n. (Key (heap l (Node n)), Value (heap l (Node n)))) rs"

text \<open>
  The invariant of the cache, for a key type whose \<open>==\<close> is symmetric and transitive.
  The list is well-formed and no longer than the capacity; no two of its nodes hold
  equal keys; every entry of the table is the key of an allocated node with that node;
  an entry whose key equals itself has a node of the list; every node of the list has
  its entry; no two entries have the same node. An entry whose key differs from itself
  may have a node that is no longer in the list.
  \<open>tinv key\<close> is the invariant inside \<open>Set key\<close>, between the removal of the old node and
  the store into the table: no node of the list holds a key equal to \<open>key\<close>, and an
  entry of a key equal to \<open>key\<close> may have a node that is no longer in the list.
\<close>

definition cinv :: "('k \<Rightarrow> 'k \<Rightarrow> bool) \<Rightarrow> ('k, 'v) LRUCache \<Rightarrow> nat list \<Rightarrow> bool" where
  "cinv eq c rs =
     (linv (lruList c) rs \<and> int (length rs) \<le> capacity c \<and>
      (\<forall>n\<in>set rs. \<forall>m\<in>set rs.
         eq (Key (heap (lruList c) (Node n))) (Key (heap (lruList c) (Node m))) \<longrightarrow> n = m) \<and>
      (\<forall>e\<in>set (cache c). \<exists>n<fresh (lruList c).
         e = (Key (heap (lruList c) (Node n)), Some (Node n))) \<and>
      (\<forall>e\<in>set (cache c). eq (fst e) (fst e) \<longrightarrow> (\<exists>n\<in>set rs. snd e = Some (Node n))) \<and>
      (\<forall>n\<in>set rs. (Key (heap (lruList c) (Node n)), Some (Node n)) \<in> set (cache c)) \<and>
      distinct (map snd (cache c)))"

definition tinv ::
  "('k \<Rightarrow> 'k \<Rightarrow> bool) \<Rightarrow> 'k \<Rightarrow> ('k, 'v) LRUCache \<Rightarrow> nat list \<Rightarrow> bool" where
  "tinv eq key c rs =
     (linv (lruList c) rs \<and>
      (\<forall>n\<in>set rs. \<forall>m\<in>set rs.
         eq (Key (heap (lruList c) (Node n))) (Key (heap (lruList c) (Node m))) \<longrightarrow> n = m) \<and>
      (\<forall>e\<in>set (cache c). \<exists>n<fresh (lruList c).
         e = (Key (heap (lruList c) (Node n)), Some (Node n))) \<and>
      (\<forall>e\<in>set (cache c). eq (fst e) (fst e) \<and> \<not> eq (fst e) key \<longrightarrow>
         (\<exists>n\<in>set rs. snd e = Some (Node n))) \<and>
      (\<forall>n\<in>set rs. (Key (heap (lruList c) (Node n)), Some (Node n)) \<in> set (cache c)) \<and>
      distinct (map snd (cache c)) \<and>
      (\<forall>n\<in>set rs. \<not> eq (Key (heap (lruList c) (Node n))) key))"

text \<open>
  What \<open>Set\<close> does to the entries of the list, from the least to the most recently
  used: drop the entry of an equal key, drop the first entry if the list is full, and
  add the new entry at the end.
\<close>

definition aset ::
  "('k \<Rightarrow> 'k \<Rightarrow> bool) \<Rightarrow> 'k \<Rightarrow> 'v \<Rightarrow> int \<Rightarrow> ('k \<times> 'v) list \<Rightarrow> ('k \<times> 'v) list" where
  "aset eq key val cap xs =
     (let ys = filter (\<lambda>e. \<not> eq (fst e) key) xs
      in (if int (length ys) = cap then tl ys else ys) @ [(key, val)])"

text \<open>A sequence of \<open>Set\<close> calls, one after the other; a panic ends it.\<close>

fun Sets ::
  "('k \<Rightarrow> 'k \<Rightarrow> bool) \<Rightarrow> ('k \<times> 'v) list \<Rightarrow> ('k, 'v) LRUCache \<Rightarrow>
   unit outcome \<times> ('k, 'v) LRUCache" where
  "Sets eq [] c = (Return (), c)"
| "Sets eq ((k, v) # kvs) c =
     (case Set eq k v c of
        (Panic, c') \<Rightarrow> (Panic, c')
      | (Return _, c') \<Rightarrow> Sets eq kvs c')"

text \<open>\<open>unequal eq ks\<close>: no key of \<open>ks\<close> is equal to a later one.\<close>

fun unequal :: "('k \<Rightarrow> 'k \<Rightarrow> bool) \<Rightarrow> 'k list \<Rightarrow> bool" where
  "unequal eq [] = True"
| "unequal eq (k # ks) = (list_all (\<lambda>k'. \<not> eq k k') ks \<and> unequal eq ks)"

section \<open>Example stores\<close>

text \<open>
  A cache with \<open>int\<close> keys, of capacity 2, after \<open>Set(1,1)\<close>, \<open>Set(2,2)\<close>, \<open>Get(1)\<close>,
  \<open>Set(3,3)\<close>.
\<close>

definition example_cache :: "(int, int) LRUCache" where
  "example_cache =
     snd (Set (=) 3 3 (snd (Get (=) 0 1 (snd (Set (=) 2 2 (snd (Set (=) 1 1
       \<lparr>lruList = NewLRUList 0 0, cache = [], capacity = 2\<rparr>)))))))"

text \<open>
  Keys of type \<open>float64\<close>, which the tests of the repository use, as far as the table
  sees them: \<open>Num i\<close> is the number \<open>float64(i)\<close>, and \<open>NaN\<close> is not equal to itself.
\<close>

datatype float64 = Num int | NaN

definition float64_eq :: "float64 \<Rightarrow> float64 \<Rightarrow> bool" where
  "float64_eq a b = (a = b \<and> a \<noteq> NaN)"

text \<open>A fresh \<open>float64\<close> cache of capacity 1, and that cache after \<open>Set(NaN,1)\<close>, \<open>Set(NaN,2)\<close>.\<close>

definition float_cache :: "(float64, int) LRUCache" where
  "float_cache = \<lparr>lruList = NewLRUList (Num 0) 0, cache = [], capacity = 1\<rparr>"

definition nan_cache :: "(float64, int) LRUCache" where
  "nan_cache = snd (Set float64_eq NaN 2 (snd (Set float64_eq NaN 1 float_cache)))"



section \<open>Reading and writing the store\<close>

lemma heap_set_nxt [simp]:
  "nxt (heap (set_nxt r p l) x) = (if x = r then p else nxt (heap l x))"
  "prv (heap (set_nxt r p l) x) = prv (heap l x)"
  "lst (heap (set_nxt r p l) x) = lst (heap l x)"
  "Key (heap (set_nxt r p l) x) = Key (heap l x)"
  "Value (heap (set_nxt r p l) x) = Value (heap l x)"
  "len (set_nxt r p l) = len l"
  "fresh (set_nxt r p l) = fresh l"
  by (simp_all add: set_nxt_def)

lemma heap_set_prv [simp]:
  "nxt (heap (set_prv r p l) x) = nxt (heap l x)"
  "prv (heap (set_prv r p l) x) = (if x = r then p else prv (heap l x))"
  "lst (heap (set_prv r p l) x) = lst (heap l x)"
  "Key (heap (set_prv r p l) x) = Key (heap l x)"
  "Value (heap (set_prv r p l) x) = Value (heap l x)"
  "len (set_prv r p l) = len l"
  "fresh (set_prv r p l) = fresh l"
  by (simp_all add: set_prv_def)

lemma heap_set_lst [simp]:
  "nxt (heap (set_lst r q l) x) = nxt (heap l x)"
  "prv (heap (set_lst r q l) x) = prv (heap l x)"
  "lst (heap (set_lst r q l) x) = (if x = r then q else lst (heap l x))"
  "Key (heap (set_lst r q l) x) = Key (heap l x)"
  "Value (heap (set_lst r q l) x) = Value (heap l x)"
  "len (set_lst r q l) = len l"
  "fresh (set_lst r q l) = fresh l"
  by (simp_all add: set_lst_def)

lemma chain_join:
  "P \<noteq> [] \<Longrightarrow> S \<noteq> [] \<Longrightarrow>
   chain h (P @ S) = (chain h P \<and> link h (last P) (hd S) \<and> chain h S)"
proof (induction P)
  case Nil
  then show ?case by simp
next
  case (Cons x P)
  show ?case
  proof (cases P)
    case Nil
    with Cons.prems show ?thesis by (cases S) auto
  next
    case (Cons y P')
    with Cons.IH Cons.prems show ?thesis by auto
  qed
qed

lemma chain_frame:
  "(\<And>x. x \<in> set (butlast xs) \<Longrightarrow> nxt (h' x) = nxt (h x)) \<Longrightarrow>
   (\<And>x. x \<in> set (tl xs) \<Longrightarrow> prv (h' x) = prv (h x)) \<Longrightarrow>
   chain h' xs = chain h xs"
proof (induction h xs rule: chain.induct)
  case (1 h x y zs)
  then show ?case by (simp add: link_def)
qed simp_all

section \<open>Linking and unlinking keep the list well-formed\<close>

lemma last_notin_butlast: "distinct xs \<Longrightarrow> xs \<noteq> [] \<Longrightarrow> x \<in> set (butlast xs) \<Longrightarrow> x \<noteq> last xs"
  by (metis append_butlast_last_id distinct_append disjoint_iff list.set_intros(1))

lemma hd_notin_tl: "distinct xs \<Longrightarrow> xs \<noteq> [] \<Longrightarrow> x \<in> set (tl xs) \<Longrightarrow> x \<noteq> hd xs"
  by (cases xs) auto

lemma chain_insert:
  assumes c: "chain h (P @ S)" and ne: "P \<noteq> []" "S \<noteq> []"
    and d: "distinct P" "distinct S" "nd \<notin> set P" "nd \<notin> set S"
      "hd S \<notin> set (tl P)" "last P \<notin> set (butlast S)"
    and new: "nxt (h' (last P)) = Some nd" "prv (h' nd) = Some (last P)"
      "nxt (h' nd) = Some (hd S)" "prv (h' (hd S)) = Some nd"
    and fr: "\<And>x. x \<noteq> last P \<Longrightarrow> x \<noteq> nd \<Longrightarrow> nxt (h' x) = nxt (h x)"
      "\<And>x. x \<noteq> hd S \<Longrightarrow> x \<noteq> nd \<Longrightarrow> prv (h' x) = prv (h x)"
  shows "chain h' (P @ nd # S)"
proof -
  from c ne have cP: "chain h P" and cS: "chain h S"
    by (simp_all add: chain_join)
  have "chain h' P = chain h P"
  proof (rule chain_frame)
    fix x assume "x \<in> set (butlast P)"
    then have "x \<noteq> last P" "x \<noteq> nd"
      using d ne last_notin_butlast[of P x] in_set_butlastD[of x P] by auto
    then show "nxt (h' x) = nxt (h x)" by (rule fr)
  next
    fix x assume "x \<in> set (tl P)"
    then have "x \<noteq> hd S" "x \<noteq> nd"
      using d ne list.set_sel(2)[of P x] by auto
    then show "prv (h' x) = prv (h x)" by (rule fr)
  qed
  moreover have "chain h' S = chain h S"
  proof (rule chain_frame)
    fix x assume "x \<in> set (butlast S)"
    then have "x \<noteq> last P" "x \<noteq> nd"
      using d ne in_set_butlastD[of x S] by auto
    then show "nxt (h' x) = nxt (h x)" by (rule fr)
  next
    fix x assume "x \<in> set (tl S)"
    then have "x \<noteq> hd S" "x \<noteq> nd"
      using d ne hd_notin_tl[of S x] list.set_sel(2)[of S x] by auto
    then show "prv (h' x) = prv (h x)" by (rule fr)
  qed
  moreover have "chain h' (P @ nd # S) =
      (chain h' P \<and> link h' (last P) nd \<and> link h' nd (hd S) \<and> chain h' S)"
    using ne chain_join[of P "nd # S" h'] chain_join[of "[nd]" S h'] by simp
  ultimately show ?thesis
    using cP cS new by (simp add: link_def)
qed

lemma chain_remove:
  assumes c: "chain h (P @ a # S)" and ne: "P \<noteq> []" "S \<noteq> []"
    and d: "distinct P" "distinct S" "a \<notin> set P" "a \<notin> set S"
      "hd S \<notin> set (tl P)" "last P \<notin> set (butlast S)"
    and new: "nxt (h' (last P)) = Some (hd S)" "prv (h' (hd S)) = Some (last P)"
    and fr: "\<And>x. x \<noteq> last P \<Longrightarrow> x \<noteq> a \<Longrightarrow> nxt (h' x) = nxt (h x)"
      "\<And>x. x \<noteq> hd S \<Longrightarrow> x \<noteq> a \<Longrightarrow> prv (h' x) = prv (h x)"
  shows "chain h' (P @ S)"
proof -
  from c ne have cP: "chain h P" and cS: "chain h S"
    using chain_join[of P "a # S" h] chain_join[of "[a]" S h] by simp_all
  have "chain h' P = chain h P"
  proof (rule chain_frame)
    fix x assume "x \<in> set (butlast P)"
    then have "x \<noteq> last P" "x \<noteq> a"
      using d ne last_notin_butlast[of P x] in_set_butlastD[of x P] by auto
    then show "nxt (h' x) = nxt (h x)" by (rule fr)
  next
    fix x assume "x \<in> set (tl P)"
    then have "x \<noteq> hd S" "x \<noteq> a"
      using d ne list.set_sel(2)[of P x] by auto
    then show "prv (h' x) = prv (h x)" by (rule fr)
  qed
  moreover have "chain h' S = chain h S"
  proof (rule chain_frame)
    fix x assume "x \<in> set (butlast S)"
    then have "x \<noteq> last P" "x \<noteq> a"
      using d ne in_set_butlastD[of x S] by auto
    then show "nxt (h' x) = nxt (h x)" by (rule fr)
  next
    fix x assume "x \<in> set (tl S)"
    then have "x \<noteq> hd S" "x \<noteq> a"
      using d ne hd_notin_tl[of S x] list.set_sel(2)[of S x] by auto
    then show "prv (h' x) = prv (h x)" by (rule fr)
  qed
  ultimately show ?thesis
    using cP cS new ne by (simp add: chain_join link_def)
qed

lemma linv_link:
  "linv l (as @ cs) \<Longrightarrow> link (heap l) (last (Root # map Node as)) (hd (map Node cs @ [Root]))"
  using chain_join[of "Root # map Node as" "map Node cs @ [Root]" "heap l"]
  by (simp add: linv_def)

lemma linv_NewLRUList: "linv (NewLRUList zk zv) []"
  by (simp add: linv_def NewLRUList_def link_def)

lemma lptr_cases: "(q::lptr) \<noteq> Some L \<Longrightarrow> q = None"
  by (cases q) (auto intro: lref.exhaust)

lemma linv_last_owned:
  assumes "linv l (as @ cs)"
  shows "lst (heap l (last (Root # map Node as))) = Some L"
proof (cases as rule: rev_cases)
  case Nil
  with assms show ?thesis by (simp add: linv_def)
next
  case (snoc ys y)
  with assms show ?thesis by (simp add: linv_def)
qed

lemma linv_ends:
  assumes "distinct (as @ cs)"
  shows "hd (map Node cs @ [Root]) \<notin> set (tl (Root # map Node as))"
    and "last (Root # map Node as) \<notin> set (butlast (map Node cs @ [Root]))"
proof -
  show "hd (map Node cs @ [Root]) \<notin> set (tl (Root # map Node as))"
    using assms by (cases cs) auto
  show "last (Root # map Node as) \<notin> set (butlast (map Node cs @ [Root]))"
    using assms by (cases as rule: rev_cases) (auto simp: butlast_append)
qed

lemma insert_node_linv:
  assumes inv: "linv l (as @ cs)" and m: "m \<notin> set (as @ cs)" "m < fresh l"
    and det: "nxt (heap l (Node m)) = None" "prv (heap l (Node m)) = None"
  shows "\<exists>l'. insert_node (Some (Node m)) (Some (last (Root # map Node as))) l =
            (Return (Some (Node m), None), l') \<and>
          linv l' (as @ m # cs) \<and> fresh l' = fresh l \<and>
          (\<forall>x. Key (heap l' x) = Key (heap l x) \<and> Value (heap l' x) = Value (heap l x))"
proof -
  let ?P = "Root # map Node as" and ?S = "map Node cs @ [Root]"
  let ?a = "last ?P" and ?n = "hd ?S" and ?nd = "Node m"
  define l' where "l' = (set_prv ?n (Some ?nd) (set_nxt ?nd (Some ?n) (set_prv ?nd (Some ?a)
     (set_nxt ?a (Some ?nd) (set_lst ?nd (Some L) l)))))\<lparr>len := len l + 1\<rparr>"
  from inv have d: "distinct (as @ cs)" by (simp add: linv_def)
  from inv have lk: "nxt (heap l ?a) = Some ?n" "prv (heap l ?n) = Some ?a"
    using linv_link[OF inv] by (simp_all add: link_def)
  have own: "lst (heap l ?a) = Some L" by (rule linv_last_owned[OF inv])
  have det3: "lst (heap l ?nd) = None"
    using inv m by (intro lptr_cases) (simp add: linv_def)
  have nda: "?nd \<noteq> ?a" using own det3 by auto
  have ndn: "?nd \<noteq> ?n" using m by (cases cs) auto
  have eq: "insert_node (Some ?nd) (Some ?a) l = (Return (Some ?nd, None), l')"
    unfolding insert_node_def l'_def using det det3 own lk nda
    by (simp add: Let_def)
  have ch: "chain (heap l') (?P @ ?nd # ?S)"
  proof (rule chain_insert[where h = "heap l"])
    show "chain (heap l) (?P @ ?S)" using inv by (simp add: linv_def)
    show "distinct ?P" "distinct ?S" using d by (auto simp: distinct_map inj_on_def)
    show "?nd \<notin> set ?P" "?nd \<notin> set ?S" using m by auto
    show "?n \<notin> set (tl ?P)" "?a \<notin> set (butlast ?S)" using linv_ends[OF d] by blast+
    show "nxt (heap l' ?a) = Some ?nd" using nda by (simp add: l'_def)
    show "prv (heap l' ?nd) = Some ?a" using ndn by (simp add: l'_def)
    show "nxt (heap l' ?nd) = Some ?n" by (simp add: l'_def)
    show "prv (heap l' ?n) = Some ?nd" by (simp add: l'_def)
    show "\<And>x. x \<noteq> ?a \<Longrightarrow> x \<noteq> ?nd \<Longrightarrow> nxt (heap l' x) = nxt (heap l x)"
      by (simp add: l'_def)
    show "\<And>x. x \<noteq> ?n \<Longrightarrow> x \<noteq> ?nd \<Longrightarrow> prv (heap l' x) = prv (heap l x)"
      by (simp add: l'_def)
  qed simp_all
  have "linv l' (as @ m # cs)"
    unfolding linv_def
  proof (intro conjI)
    show "chain (heap l') (Root # map Node (as @ m # cs) @ [Root])" using ch by simp
    show "distinct (as @ m # cs)" using d m by auto
    show "lst (heap l' Root) = Some L" using inv by (simp add: l'_def linv_def)
    show "\<forall>n. (lst (heap l' (Node n)) = Some L) = (n \<in> set (as @ m # cs))"
      using inv by (auto simp add: l'_def linv_def)
    show "\<forall>n\<in>set (as @ m # cs). n < fresh l'" using inv m by (auto simp add: l'_def linv_def)
    show "len l' = int (length (as @ m # cs))" using inv by (simp add: l'_def linv_def)
  qed
  moreover have "fresh l' = fresh l" by (simp add: l'_def)
  moreover have "\<forall>x. Key (heap l' x) = Key (heap l x) \<and> Value (heap l' x) = Value (heap l x)"
    by (simp add: l'_def)
  ultimately show ?thesis using eq by blast
qed

lemma Remove_linv:
  assumes inv: "linv l (as @ k # cs)"
  shows "\<exists>l'. Remove (Some (Node k)) l = (Return (Some (Node k), None), l') \<and>
          linv l' (as @ cs) \<and> fresh l' = fresh l \<and>
          (\<forall>x. Key (heap l' x) = Key (heap l x) \<and> Value (heap l' x) = Value (heap l x)) \<and>
          nxt (heap l' (Node k)) = None \<and> prv (heap l' (Node k)) = None"
proof -
  let ?P = "Root # map Node as" and ?S = "map Node cs @ [Root]"
  let ?p = "last ?P" and ?n = "hd ?S" and ?a = "Node k"
  define l' where "l' = (set_lst ?a None (set_prv ?a None (set_nxt ?a None
     (set_prv ?n (Some ?p) (set_nxt ?p (Some ?n) l)))))\<lparr>len := len l - 1\<rparr>"
  from inv have d: "distinct (as @ k # cs)" by (simp add: linv_def)
  then have d': "distinct (as @ cs)" by simp
  have c: "chain (heap l) (?P @ ?a # ?S)" using inv by (simp add: linv_def)
  then have lk: "link (heap l) ?p ?a" "link (heap l) ?a ?n"
    using chain_join[of ?P "?a # ?S" "heap l"] chain_join[of "[?a]" ?S "heap l"] by simp_all
  have own: "lst (heap l ?a) = Some L" using inv by (simp add: linv_def)
  have pa: "?p \<noteq> ?a" using d by (cases as rule: rev_cases) auto
  have na: "?n \<noteq> ?a" using d by (cases cs) auto
  have eq: "Remove (Some ?a) l = (Return (Some ?a, None), l')"
    unfolding Remove_def l'_def using own lk pa
    by (simp add: Let_def link_def)
  have ch: "chain (heap l') (?P @ ?S)"
  proof (rule chain_remove[where h = "heap l" and a = ?a])
    show "chain (heap l) (?P @ ?a # ?S)" by (rule c)
    show "distinct ?P" "distinct ?S" using d by (auto simp: distinct_map inj_on_def)
    show "?a \<notin> set ?P" "?a \<notin> set ?S" using d by auto
    show "?n \<notin> set (tl ?P)" "?p \<notin> set (butlast ?S)" using linv_ends[OF d'] by blast+
    show "nxt (heap l' ?p) = Some ?n" using pa by (simp add: l'_def)
    show "prv (heap l' ?n) = Some ?p" using na by (simp add: l'_def)
    show "\<And>x. x \<noteq> ?p \<Longrightarrow> x \<noteq> ?a \<Longrightarrow> nxt (heap l' x) = nxt (heap l x)"
      by (simp add: l'_def)
    show "\<And>x. x \<noteq> ?n \<Longrightarrow> x \<noteq> ?a \<Longrightarrow> prv (heap l' x) = prv (heap l x)"
      by (simp add: l'_def)
  qed simp_all
  have "linv l' (as @ cs)"
    unfolding linv_def
  proof (intro conjI)
    show "chain (heap l') (Root # map Node (as @ cs) @ [Root])" using ch by simp
    show "distinct (as @ cs)" by (rule d')
    show "lst (heap l' Root) = Some L" using inv by (simp add: l'_def linv_def)
    show "\<forall>n. (lst (heap l' (Node n)) = Some L) = (n \<in> set (as @ cs))"
      using inv d by (auto simp add: l'_def linv_def)
    show "\<forall>n\<in>set (as @ cs). n < fresh l'" using inv by (auto simp add: l'_def linv_def)
    show "len l' = int (length (as @ cs))" using inv by (simp add: l'_def linv_def)
  qed
  moreover have "fresh l' = fresh l" by (simp add: l'_def)
  moreover have "\<forall>x. Key (heap l' x) = Key (heap l x) \<and> Value (heap l' x) = Value (heap l x)"
    by (simp add: l'_def)
  moreover have "nxt (heap l' ?a) = None" "prv (heap l' ?a) = None" by (simp_all add: l'_def)
  ultimately show ?thesis using eq by blast
qed

lemma alloc_linv:
  assumes inv: "linv l rs"
  shows "\<exists>l1. NewLRUListNode key val None None None l = (Node (fresh l), l1) \<and>
      linv l1 rs \<and> fresh l1 = Suc (fresh l) \<and>
      nxt (heap l1 (Node (fresh l))) = None \<and> prv (heap l1 (Node (fresh l))) = None \<and>
      Key (heap l1 (Node (fresh l))) = key \<and> Value (heap l1 (Node (fresh l))) = val \<and>
      (\<forall>x. x \<noteq> Node (fresh l) \<longrightarrow> heap l1 x = heap l x) \<and> len l1 = len l"
proof -
  define l1 where "l1 = snd (NewLRUListNode key val None None None l)"
  have eq: "NewLRUListNode key val None None None l = (Node (fresh l), l1)"
    by (simp add: l1_def NewLRUListNode_def)
  have fr: "\<And>x. x \<noteq> Node (fresh l) \<Longrightarrow> heap l1 x = heap l x"
    by (simp add: l1_def NewLRUListNode_def)
  have new: "heap l1 (Node (fresh l)) = \<lparr>nxt = None, prv = None, lst = None, Key = key, Value = val\<rparr>"
    by (simp add: l1_def NewLRUListNode_def)
  have nin: "fresh l \<notin> set rs" using inv by (auto simp: linv_def)
  have "chain (heap l1) (Root # map Node rs @ [Root]) = chain (heap l) (Root # map Node rs @ [Root])"
  proof (rule chain_frame)
    fix x assume "x \<in> set (butlast (Root # map Node rs @ [Root]))"
    then have "x \<noteq> Node (fresh l)" using nin by (auto simp: butlast_append)
    then show "nxt (heap l1 x) = nxt (heap l x)" by (simp add: fr)
  next
    fix x assume "x \<in> set (tl (Root # map Node rs @ [Root]))"
    then have "x \<noteq> Node (fresh l)" using nin by auto
    then show "prv (heap l1 x) = prv (heap l x)" by (simp add: fr)
  qed
  moreover have "\<forall>n. (lst (heap l1 (Node n)) = Some L) = (n \<in> set rs)"
  proof
    fix n show "(lst (heap l1 (Node n)) = Some L) = (n \<in> set rs)"
      using inv nin new fr[of "Node n"] by (cases "n = fresh l") (auto simp: linv_def)
  qed
  moreover have "fresh l1 = Suc (fresh l)" "len l1 = len l"
    by (simp_all add: l1_def NewLRUListNode_def)
  ultimately have "linv l1 rs"
    using inv fr[of Root] by (auto simp: linv_def)
  then show ?thesis
    using eq fr new \<open>fresh l1 = Suc (fresh l)\<close> \<open>len l1 = len l\<close> by auto
qed

lemma linv_prv_Root: "linv l rs \<Longrightarrow> prv (heap l Root) = Some (last (Root # map Node rs))"
  using linv_link[of l rs "[]"] by (simp add: link_def)

lemma linv_nxt_Root: "linv l rs \<Longrightarrow> nxt (heap l Root) = Some (hd (map Node rs @ [Root]))"
  using linv_link[of l "[]" rs] by (simp add: link_def)

lemma Front_linv:
  "linv l rs \<Longrightarrow> Front l = (if rs = [] then None else Some (Node (last rs)))"
  by (simp add: Front_def Prev_def linv_prv_Root last_map) (simp add: linv_def)

lemma Back_linv:
  "linv l rs \<Longrightarrow> Back l = (if rs = [] then None else Some (Node (hd rs)))"
  by (simp add: Back_def Next_def linv_nxt_Root hd_map hd_append) (simp add: linv_def)

lemma pushFront_linv:
  assumes "linv l rs" "m \<notin> set rs" "m < fresh l"
    "nxt (heap l (Node m)) = None" "prv (heap l (Node m)) = None"
  shows "\<exists>l'. pushFront (Some (Node m)) l = (Return (Some (Node m), None), l') \<and>
          linv l' (rs @ [m]) \<and> fresh l' = fresh l \<and>
          (\<forall>x. Key (heap l' x) = Key (heap l x) \<and> Value (heap l' x) = Value (heap l x))"
  using insert_node_linv[of l rs "[]" m] assms
  by (simp add: pushFront_def linv_prv_Root)


lemma PushFront_linv:
  assumes inv: "linv l rs"
  shows "\<exists>l'. PushFront key val l = (Return (Some (Node (fresh l))), l') \<and>
          linv l' (rs @ [fresh l]) \<and> fresh l' = Suc (fresh l) \<and>
          Key (heap l' (Node (fresh l))) = key \<and> Value (heap l' (Node (fresh l))) = val \<and>
          (\<forall>x. x \<noteq> Node (fresh l) \<longrightarrow>
             Key (heap l' x) = Key (heap l x) \<and> Value (heap l' x) = Value (heap l x))"
proof -
  from alloc_linv[OF inv, of key val] obtain l1 where
    a: "NewLRUListNode key val None None None l = (Node (fresh l), l1)"
      "linv l1 rs" "fresh l1 = Suc (fresh l)"
      "nxt (heap l1 (Node (fresh l))) = None" "prv (heap l1 (Node (fresh l))) = None"
      "Key (heap l1 (Node (fresh l))) = key" "Value (heap l1 (Node (fresh l))) = val"
      "\<forall>x. x \<noteq> Node (fresh l) \<longrightarrow> heap l1 x = heap l x"
    by blast
  have nin: "fresh l \<notin> set rs" using inv by (auto simp: linv_def)
  from pushFront_linv[OF a(2) nin _ a(4) a(5)] a(3) obtain l' where
    p: "pushFront (Some (Node (fresh l))) l1 = (Return (Some (Node (fresh l)), None), l')"
      "linv l' (rs @ [fresh l])" "fresh l' = fresh l1"
      "\<forall>x. Key (heap l' x) = Key (heap l1 x) \<and> Value (heap l' x) = Value (heap l1 x)"
    by auto
  have "PushFront key val l = (Return (Some (Node (fresh l))), l')"
    by (simp add: PushFront_def a(1) p(1))
  then show ?thesis using p a by auto
qed


lemma PopBack_linv:
  assumes "linv l (r # rs)"
  shows "\<exists>l'. PopBack l = (Return (Some (Node r), None), l') \<and>
          linv l' rs \<and> fresh l' = fresh l \<and>
          (\<forall>x. Key (heap l' x) = Key (heap l x) \<and> Value (heap l' x) = Value (heap l x))"
  using Remove_linv[of l "[]" r rs] assms by (auto simp: PopBack_def Back_linv)

lemma PopBack_empty: "linv l [] \<Longrightarrow> PopBack l = (Panic, l)"
  by (simp add: PopBack_def Back_linv Remove_def)

lemma PopFront_linv:
  assumes "linv l (rs @ [r])"
  shows "\<exists>l'. PopFront l = (Return (Some (Node r), None), l') \<and>
          linv l' rs \<and> fresh l' = fresh l \<and>
          (\<forall>x. Key (heap l' x) = Key (heap l x) \<and> Value (heap l' x) = Value (heap l x))"
  using Remove_linv[of l rs r "[]"] assms by (auto simp: PopFront_def Front_linv)

lemma PopFront_empty: "linv l [] \<Longrightarrow> PopFront l = (Panic, l)"
  by (simp add: PopFront_def Front_linv Remove_def)

lemma MoveToFront_linv:
  assumes inv: "linv l (as @ k # cs)"
  shows "\<exists>l'. MoveToFront (Some (Node k)) l = (Return None, l') \<and>
          linv l' (as @ cs @ [k]) \<and> fresh l' = fresh l \<and>
          (\<forall>x. Key (heap l' x) = Key (heap l x) \<and> Value (heap l' x) = Value (heap l x))"
proof -
  from Remove_linv[OF inv] obtain l1 where
    r: "Remove (Some (Node k)) l = (Return (Some (Node k), None), l1)"
      "linv l1 (as @ cs)" "fresh l1 = fresh l"
      "\<forall>x. Key (heap l1 x) = Key (heap l x) \<and> Value (heap l1 x) = Value (heap l x)"
      "nxt (heap l1 (Node k)) = None" "prv (heap l1 (Node k)) = None"
    by blast
  have k: "k \<notin> set (as @ cs)" "k < fresh l1" using inv r(3) by (auto simp: linv_def)
  from pushFront_linv[OF r(2) k r(5) r(6)] obtain l' where
    p: "pushFront (Some (Node k)) l1 = (Return (Some (Node k), None), l')"
      "linv l' ((as @ cs) @ [k])" "fresh l' = fresh l1"
      "\<forall>x. Key (heap l' x) = Key (heap l1 x) \<and> Value (heap l' x) = Value (heap l1 x)"
    by blast
  have "MoveToFront (Some (Node k)) l = (Return None, l')"
    by (simp add: MoveToFront_def r(1) p(1))
  then show ?thesis using p r by auto
qed


section \<open>Every list built by the methods is well-formed\<close>

lemma Remove_cases:
  assumes inv: "linv l rs"
  shows "(Remove at l = (Panic, l) \<and> at = None) \<or>
         (\<exists>e. Remove at l = (Return (None, Some e), l)) \<or>
         (\<exists>as k cs l'. rs = as @ k # cs \<and> at = Some (Node k) \<and>
            Remove at l = (Return (Some (Node k), None), l') \<and> linv l' (as @ cs) \<and>
            fresh l' = fresh l \<and> nxt (heap l' (Node k)) = None \<and> prv (heap l' (Node k)) = None)"
proof (cases at)
  case None
  then show ?thesis by (simp add: Remove_def)
next
  case (Some a)
  show ?thesis
  proof (cases a)
    case Root
    with Some inv show ?thesis by (simp add: Remove_def linv_def)
  next
    case (Node k)
    show ?thesis
    proof (cases "k \<in> set rs")
      case True
      then obtain as cs where rs: "rs = as @ k # cs" by (auto dest: split_list)
      from Remove_linv[of l as k cs] inv rs Some Node show ?thesis by blast
    next
      case False
      with inv have "lst (heap l (Node k)) \<noteq> Some L" by (simp add: linv_def)
      with Some Node show ?thesis by (simp add: Remove_def)
    qed
  qed
qed











section \<open>The nodes a caller sees are the nodes of the invariant\<close>

lemma walk_chain:
  "chain (heap l) (x # map Node rs @ [Root]) \<Longrightarrow> lst (heap l x) = Some L \<Longrightarrow>
   \<forall>n\<in>set rs. lst (heap l (Node n)) = Some L \<Longrightarrow>
   walk (length rs) (Next x l) l = map Node rs"
proof (induction rs arbitrary: x)
  case Nil
  then show ?case by simp
next
  case (Cons r rs)
  from Cons.prems(1) have nx: "nxt (heap l x) = Some (Node r)"
    and ch: "chain (heap l) (Node r # map Node rs @ [Root])"
    by (simp_all add: link_def)
  from nx Cons.prems(2) have "Next x l = Some (Node r)" by (simp add: Next_def)
  moreover have "walk (length rs) (Next (Node r) l) l = map Node rs"
    using Cons.IH[OF ch] Cons.prems(3) by simp
  ultimately show ?case by simp
qed

lemma nodes_of_linv: "linv l rs \<Longrightarrow> nodes_of l = map Node rs"
  using walk_chain[of l Root rs]
  by (simp add: nodes_of_def LRUList_Size_def Back_def linv_def)

lemma linked_prefix:
  "linv l (as @ cs) \<Longrightarrow> \<forall>n\<in>set as. linked l (Node n)"
proof (induction as arbitrary: cs rule: rev_induct)
  case Nil
  then show ?case by simp
next
  case (snoc k as)
  from snoc.prems have inv: "linv l (as @ k # cs)" by simp
  from snoc.IH[OF inv] have ih: "\<forall>n\<in>set as. linked l (Node n)" .
  from linv_link[OF inv] have nx: "nxt (heap l (last (Root # map Node as))) = Some (Node k)"
    by (simp add: link_def)
  have "linked l (Node k)"
  proof (cases as rule: rev_cases)
    case Nil
    with nx show ?thesis by (auto intro: linked_first)
  next
    case (snoc bs b)
    with nx ih show ?thesis by (auto intro: linked_next[of l "Node b"])
  qed
  with ih show ?case by simp
qed

lemma linked_linv:
  assumes inv: "linv l rs"
  shows "linked l r = (r \<in> Node ` set rs)"
proof
  assume "linked l r"
  then show "r \<in> Node ` set rs"
  proof (induction rule: linked.induct)
    case (linked_first r)
    with linv_nxt_Root[OF inv] show ?case by (cases rs) auto
  next
    case (linked_next q r)
    then obtain k where k: "q = Node k" "k \<in> set rs" by auto
    then obtain as cs where rs: "rs = as @ k # cs" by (auto dest: split_list)
    from inv have "linv l ((as @ [k]) @ cs)" by (simp add: rs)
    from linv_link[OF this] have "nxt (heap l (Node k)) = Some (hd (map Node cs @ [Root]))"
      by (simp add: link_def)
    with linked_next.hyps(2,3) k(1) show ?case by (cases cs) (auto simp: rs)
  qed
next
  assume "r \<in> Node ` set rs"
  with linked_prefix[of l rs "[]"] inv show "linked l r" by auto
qed

lemma filter_neq_Node:
  "distinct (as @ n # cs) \<Longrightarrow>
   filter (\<lambda>x. x \<noteq> Node n) (map Node (as @ n # cs)) = map Node (as @ cs)"
proof -
  assume d: "distinct (as @ n # cs)"
  have "filter (\<lambda>x. x \<noteq> n) as = as" "filter (\<lambda>x. x \<noteq> n) cs = cs"
    using d by (auto simp: filter_id_conv)
  then show ?thesis by (simp add: filter_map o_def)
qed

section \<open>The list of the cache stays within the capacity\<close>

lemma Remove_shrinks:
  assumes "linv l rs"
  shows "\<exists>rs'. linv (snd (Remove at l)) rs' \<and> length rs' \<le> length rs"
  using Remove_cases[OF assms, of at] assms by (elim disjE exE conjE) auto

lemma MoveToFront_same_length:
  assumes inv: "linv l rs"
  shows "\<exists>rs'. linv (snd (MoveToFront at l)) rs' \<and> length rs' = length rs"
  using Remove_cases[OF inv, of at]
proof (elim disjE exE conjE)
  fix as k cs l'
  assume "rs = as @ k # cs" "at = Some (Node k)"
  with MoveToFront_linv[of l as k cs] inv show ?thesis by auto
qed (use inv in \<open>auto simp: MoveToFront_def\<close>)

lemma Set_remove_old_binv:
  assumes "binv c rs"
  shows "\<exists>rs1. binv (snd (Set_remove_old eq key c)) rs1"
proof (cases "map_lookup eq (cache c) key")
  case None
  with assms show ?thesis by (auto simp: Set_remove_old_def)
next
  case (Some p)
  from assms have li: "linv (lruList c) rs" by (simp add: binv_def)
  from Remove_shrinks[OF li, of p] obtain rs' where
    r: "linv (snd (Remove p (lruList c))) rs'" "length rs' \<le> length rs" by blast
  with assms have "binv (snd (Set_remove_old eq key c)) rs'"
    by (auto simp: Set_remove_old_def Some binv_def split: prod.splits outcome.splits)
  then show ?thesis ..
qed

lemma Set_evict_binv:
  assumes "binv c rs"
  shows "(\<exists>c1. Set_evict eq c = (Panic, c1) \<and> binv c1 rs) \<or>
         (\<exists>c1 rs1. Set_evict eq c = (Return (), c1) \<and> linv (lruList c1) rs1 \<and>
            int (length rs1) < capacity c1)"
proof (cases "int (length rs) = capacity c")
  case False
  with assms have "Set_evict eq c = (Return (), c)"
    by (simp add: Set_evict_def LRUList_Size_def binv_def linv_def)
  with False assms show ?thesis by (auto simp: binv_def)
next
  case True
  from assms have li: "linv (lruList c) rs" by (simp add: binv_def)
  with True have sz: "LRUList_Size (lruList c) = capacity c"
    by (simp add: LRUList_Size_def linv_def)
  show ?thesis
  proof (cases rs)
    case Nil
    with li have "PopBack (lruList c) = (Panic, lruList c)" by (simp add: PopBack_empty)
    with sz assms show ?thesis by (simp add: Set_evict_def)
  next
    case (Cons r rs2)
    from PopBack_linv[of "lruList c" r rs2] li Cons obtain l2 where
      p: "PopBack (lruList c) = (Return (Some (Node r), None), l2)" "linv l2 rs2" by blast
    with sz True Cons show ?thesis by (auto simp: Set_evict_def)
  qed
qed

lemma Set_push_binv:
  assumes "linv (lruList c) rs" "int (length rs) < capacity c"
  shows "\<exists>rs'. binv (snd (Set_push eq key val c)) rs'"
proof -
  from PushFront_linv[OF assms(1), of key val] obtain l3 where
    "PushFront key val (lruList c) = (Return (Some (Node (fresh (lruList c)))), l3)"
    "linv l3 (rs @ [fresh (lruList c)])" by blast
  with assms(2) have "binv (snd (Set_push eq key val c)) (rs @ [fresh (lruList c)])"
    by (simp add: Set_push_def binv_def)
  then show ?thesis ..
qed

lemma Set_binv:
  assumes "binv c rs"
  shows "\<exists>rs'. binv (snd (Set eq key val c)) rs'"
proof -
  from Set_remove_old_binv[OF assms, of eq key] obtain rs1 where
    b1: "binv (snd (Set_remove_old eq key c)) rs1" by blast
  show ?thesis
  proof (cases "fst (Set_remove_old eq key c)")
    case Panic
    then have "snd (Set eq key val c) = snd (Set_remove_old eq key c)"
      by (cases "Set_remove_old eq key c") (simp add: Set_def)
    with b1 show ?thesis by auto
  next
    case (Return u)
    then obtain c1 where s1: "Set_remove_old eq key c = (Return (), c1)"
      by (cases "Set_remove_old eq key c") auto
    with b1 have b1': "binv c1 rs1" by simp
    from Set_evict_binv[OF b1', of eq] show ?thesis
    proof (elim disjE exE conjE)
      fix c2 assume "Set_evict eq c1 = (Panic, c2)" "binv c2 rs1"
      then show ?thesis by (auto simp: Set_def s1)
    next
      fix c2 rs2
      assume e: "Set_evict eq c1 = (Return (), c2)" "linv (lruList c2) rs2"
        "int (length rs2) < capacity c2"
      from Set_push_binv[OF e(2,3), of eq key val] show ?thesis by (simp add: Set_def s1 e(1))
    qed
  qed
qed

lemma Get_binv:
  assumes "binv c rs"
  shows "\<exists>rs'. binv (snd (Get eq zv key c)) rs'"
proof (cases "map_lookup eq (cache c) key")
  case None
  with assms show ?thesis by (auto simp: Get_def)
next
  case (Some p)
  from assms have li: "linv (lruList c) rs" by (simp add: binv_def)
  from MoveToFront_same_length[OF li, of p] obtain rs' where
    r: "linv (snd (MoveToFront p (lruList c))) rs'" "length rs' = length rs" by blast
  with assms have "binv (snd (Get eq zv key c)) rs'"
    by (auto simp: Get_def Some binv_def split: prod.splits outcome.splits option.splits)
  then show ?thesis ..
qed

lemma Delete_binv:
  assumes "binv c rs"
  shows "\<exists>rs'. binv (snd (Delete eq key c)) rs'"
proof (cases "map_lookup eq (cache c) key")
  case None
  with assms show ?thesis by (auto simp: Delete_def)
next
  case (Some p)
  from assms have li: "linv (lruList c) rs" by (simp add: binv_def)
  from Remove_shrinks[OF li, of p] obtain rs' where
    r: "linv (snd (Remove p (lruList c))) rs'" "length rs' \<le> length rs" by blast
  with assms have "binv (snd (Delete eq key c)) rs'"
    by (auto simp: Delete_def Some binv_def split: prod.splits outcome.splits)
  then show ?thesis ..
qed

lemma Flush_range_shrinks:
  "linv l rs \<Longrightarrow> \<exists>rs'. linv (snd (Flush_range es l)) rs' \<and> length rs' \<le> length rs"
proof (induction es arbitrary: l rs)
  case Nil
  then show ?case by auto
next
  case (Cons e es)
  from Remove_shrinks[OF Cons.prems, of "snd e"] obtain rs1 where
    r: "linv (snd (Remove (snd e) l)) rs1" "length rs1 \<le> length rs" by blast
  show ?case
  proof (cases "fst (Remove (snd e) l)")
    case Panic
    then have "snd (Flush_range (e # es) l) = snd (Remove (snd e) l)"
      by (cases "Remove (snd e) l") simp
    with r show ?thesis by auto
  next
    case (Return x)
    then have "Flush_range (e # es) l = Flush_range es (snd (Remove (snd e) l))"
      by (cases "Remove (snd e) l") simp
    with Cons.IH[OF r(1)] r(2) show ?thesis by (metis le_trans)
  qed
qed

lemma Flush_binv:
  assumes "binv c rs"
  shows "\<exists>rs'. binv (snd (Flush es c)) rs'"
proof -
  from assms have li: "linv (lruList c) rs" by (simp add: binv_def)
  from Flush_range_shrinks[OF li, of es] obtain rs' where
    r: "linv (snd (Flush_range es (lruList c))) rs'" "length rs' \<le> length rs" by blast
  with assms have "binv (snd (Flush es c)) rs'"
    by (auto simp: Flush_def binv_def split: prod.splits outcome.splits)
  then show ?thesis ..
qed

lemma NewLRUCache_binv: "NewLRUCache zk zv cap = Inr c \<Longrightarrow> binv c []"
  by (auto simp: NewLRUCache_def binv_def linv_NewLRUList split: if_splits)

lemma reach_binv: "reach eq c \<Longrightarrow> \<exists>rs. binv c rs"
proof (induction rule: reach.induct)
  case (reach_NewLRUCache zk zv cap c)
  from NewLRUCache_binv[OF this] show ?case by (rule exI)
qed (auto intro: Set_binv Get_binv Delete_binv Flush_binv)

section \<open>The cache operations keep the cache well-formed\<close>

lemma ents_cong:
  "(\<And>n. n \<in> set rs \<Longrightarrow> Key (heap l' (Node n)) = Key (heap l (Node n)) \<and>
        Value (heap l' (Node n)) = Value (heap l (Node n))) \<Longrightarrow>
   ents l' rs = ents l rs"
  by (simp add: ents_def)

lemma ents_append [simp]: "ents l (as @ bs) = ents l as @ ents l bs"
  by (simp add: ents_def)

lemma ents_Cons [simp]:
  "ents l (n # rs) = (Key (heap l (Node n)), Value (heap l (Node n))) # ents l rs"
  by (simp add: ents_def)

lemma ents_Nil [simp]: "ents l [] = []"
  by (simp add: ents_def)

lemma length_ents [simp]: "length (ents l rs) = length rs"
  by (simp add: ents_def)

lemma filter_ents_id:
  "\<forall>n\<in>set rs. \<not> eq (Key (heap l (Node n))) key \<Longrightarrow>
   filter (\<lambda>e. \<not> eq (fst e) key) (ents l rs) = ents l rs"
  by (induction rs) auto

lemma map_lookup_None_iff:
  "(map_lookup eq m key = None) = (\<forall>e\<in>set m. \<not> eq (fst e) key)"
  by (induction m) (auto simp: map_lookup_def)

lemma map_lookup_SomeD:
  "map_lookup eq m key = Some p \<Longrightarrow> \<exists>e\<in>set m. eq (fst e) key \<and> snd e = p"
  by (induction m) (auto simp: map_lookup_def split: if_splits)

lemma per_refl_left: "symp eq \<Longrightarrow> transp eq \<Longrightarrow> eq a b \<Longrightarrow> eq a a"
  by (meson sympD transpD)

lemma lookup_cinv:
  assumes inv: "cinv eq c rs" and per: "symp eq" "transp eq"
    and lk: "map_lookup eq (cache c) key = Some p"
  shows "\<exists>n\<in>set rs. p = Some (Node n) \<and> eq (Key (heap (lruList c) (Node n))) key \<and>
           (Key (heap (lruList c) (Node n)), p) \<in> set (cache c)"
proof -
  from map_lookup_SomeD[OF lk] obtain e where
    e: "e \<in> set (cache c)" "eq (fst e) key" "snd e = p" by blast
  from per e(2) have "eq (fst e) (fst e)" by (rule per_refl_left)
  with inv e(1) obtain n where n: "n \<in> set rs" "snd e = Some (Node n)"
    by (auto simp: cinv_def)
  from inv e(1) obtain n' where "e = (Key (heap (lruList c) (Node n')), Some (Node n'))"
    by (auto simp: cinv_def)
  with n(2) have "e = (Key (heap (lruList c) (Node n)), Some (Node n))" by simp
  with e n show ?thesis by auto
qed

lemma lookup_None_cinv:
  assumes inv: "cinv eq c rs" and lk: "map_lookup eq (cache c) key = None"
  shows "\<forall>n\<in>set rs. \<not> eq (Key (heap (lruList c) (Node n))) key"
proof
  fix n assume "n \<in> set rs"
  with inv have "(Key (heap (lruList c) (Node n)), Some (Node n)) \<in> set (cache c)"
    by (simp add: cinv_def)
  with lk show "\<not> eq (Key (heap (lruList c) (Node n))) key"
    by (auto simp: map_lookup_None_iff)
qed

lemma Set_remove_old_cinv:
  assumes inv: "cinv eq c rs" and per: "symp eq" "transp eq"
  shows "\<exists>c1 rs1. Set_remove_old eq key c = (Return (), c1) \<and> tinv eq key c1 rs1 \<and>
           capacity c1 = capacity c \<and> int (length rs1) \<le> capacity c \<and>
           ents (lruList c1) rs1 = filter (\<lambda>e. \<not> eq (fst e) key) (ents (lruList c) rs)"
proof (cases "map_lookup eq (cache c) key")
  case None
  from lookup_None_cinv[OF inv None]
  have nk: "\<forall>n\<in>set rs. \<not> eq (Key (heap (lruList c) (Node n))) key" .
  have "Set_remove_old eq key c = (Return (), c)" using None by (simp add: Set_remove_old_def)
  moreover have "tinv eq key c rs" using inv nk by (simp add: cinv_def tinv_def)
  ultimately show ?thesis using inv nk by (auto simp: filter_ents_id cinv_def)
next
  case (Some p)
  let ?l = "lruList c"
  from lookup_cinv[OF inv per Some] obtain n where
    n: "n \<in> set rs" "p = Some (Node n)" "eq (Key (heap ?l (Node n))) key" by blast
  then obtain as cs where rs: "rs = as @ n # cs" by (auto dest: split_list)
  from inv have li: "linv ?l (as @ n # cs)" by (simp add: cinv_def rs)
  then have d: "distinct (as @ n # cs)" by (simp add: linv_def)
  from Remove_linv[OF li] obtain l1 where
    r: "Remove (Some (Node n)) ?l = (Return (Some (Node n), None), l1)"
      "linv l1 (as @ cs)" "fresh l1 = fresh ?l"
      "\<forall>x. Key (heap l1 x) = Key (heap ?l x) \<and> Value (heap l1 x) = Value (heap ?l x)"
    by blast
  let ?c1 = "c\<lparr>lruList := l1\<rparr>"
  have e1: "\<And>xs. ents l1 xs = ents ?l xs" using r(4) by (simp add: ents_def)
  have eq1: "Set_remove_old eq key c = (Return (), ?c1)"
    using Some n(2) r(1) by (simp add: Set_remove_old_def)
  from inv have A: "\<forall>a\<in>set rs. \<forall>b\<in>set rs.
      eq (Key (heap ?l (Node a))) (Key (heap ?l (Node b))) \<longrightarrow> a = b"
    and E: "\<forall>e\<in>set (cache c). \<exists>x<fresh ?l. e = (Key (heap ?l (Node x)), Some (Node x))"
    and R: "\<forall>e\<in>set (cache c). eq (fst e) (fst e) \<longrightarrow> (\<exists>x\<in>set rs. snd e = Some (Node x))"
    and N: "\<forall>x\<in>set rs. (Key (heap ?l (Node x)), Some (Node x)) \<in> set (cache c)"
    and D: "distinct (map snd (cache c))"
    by (simp_all add: cinv_def)
  have F: "\<forall>m\<in>set (as @ cs). \<not> eq (Key (heap ?l (Node m))) key"
  proof
    fix m assume m: "m \<in> set (as @ cs)"
    show "\<not> eq (Key (heap ?l (Node m))) key"
    proof
      assume "eq (Key (heap ?l (Node m))) key"
      moreover from per(1) n(3) have "eq key (Key (heap ?l (Node n)))" by (rule sympD)
      ultimately have "eq (Key (heap ?l (Node m))) (Key (heap ?l (Node n)))"
        using per(2) by (meson transpD)
      with A m n(1) have "m = n" by (auto simp: rs)
      with m d show False by auto
    qed
  qed
  have R': "\<forall>e\<in>set (cache c). eq (fst e) (fst e) \<and> \<not> eq (fst e) key \<longrightarrow>
      (\<exists>x\<in>set (as @ cs). snd e = Some (Node x))"
  proof (intro ballI impI)
    fix e assume e: "e \<in> set (cache c)" "eq (fst e) (fst e) \<and> \<not> eq (fst e) key"
    with R obtain x where x: "x \<in> set rs" "snd e = Some (Node x)" by blast
    from E e(1) obtain x' where "e = (Key (heap ?l (Node x')), Some (Node x'))" by blast
    with x(2) have "fst e = Key (heap ?l (Node x))" by auto
    with e(2) n(3) have "x \<noteq> n" by auto
    with x show "\<exists>x\<in>set (as @ cs). snd e = Some (Node x)" by (auto simp: rs)
  qed
  have "tinv eq key ?c1 (as @ cs)"
    unfolding tinv_def
  proof (intro conjI)
    show "linv (lruList ?c1) (as @ cs)" using r(2) by simp
    show "\<forall>a\<in>set (as @ cs). \<forall>b\<in>set (as @ cs).
        eq (Key (heap (lruList ?c1) (Node a))) (Key (heap (lruList ?c1) (Node b))) \<longrightarrow> a = b"
      using A r(4) by (auto simp: rs)
    show "\<forall>e\<in>set (cache ?c1). \<exists>x<fresh (lruList ?c1).
        e = (Key (heap (lruList ?c1) (Node x)), Some (Node x))"
      using E r(3,4) by simp
    show "\<forall>e\<in>set (cache ?c1). eq (fst e) (fst e) \<and> \<not> eq (fst e) key \<longrightarrow>
        (\<exists>x\<in>set (as @ cs). snd e = Some (Node x))"
      using R' by simp
    show "\<forall>x\<in>set (as @ cs). (Key (heap (lruList ?c1) (Node x)), Some (Node x)) \<in> set (cache ?c1)"
      using N r(4) by (auto simp: rs)
    show "distinct (map snd (cache ?c1))" using D by simp
    show "\<forall>x\<in>set (as @ cs). \<not> eq (Key (heap (lruList ?c1) (Node x))) key"
      using F r(4) by simp
  qed
  moreover have "ents l1 (as @ cs) = filter (\<lambda>e. \<not> eq (fst e) key) (ents ?l rs)"
  proof -
    from F have "filter (\<lambda>e. \<not> eq (fst e) key) (ents ?l as) = ents ?l as"
      "filter (\<lambda>e. \<not> eq (fst e) key) (ents ?l cs) = ents ?l cs"
      by (auto intro!: filter_ents_id)
    then show ?thesis using n(3) by (simp add: e1 rs)
  qed
  moreover have "int (length (as @ cs)) \<le> capacity c" using inv by (simp add: cinv_def rs)
  ultimately show ?thesis using eq1 by (intro exI[of _ ?c1] exI[of _ "as @ cs"]) simp
qed

lemma Set_evict_tinv:
  assumes inv: "tinv eq key c rs" and le: "int (length rs) \<le> capacity c"
  shows "(capacity c = 0 \<and> rs = [] \<and> Set_evict eq c = (Panic, c)) \<or>
         (0 < capacity c \<and>
          (\<exists>c2 rs2. Set_evict eq c = (Return (), c2) \<and> tinv eq key c2 rs2 \<and>
             capacity c2 = capacity c \<and> int (length rs2) < capacity c \<and>
             ents (lruList c2) rs2 =
               (if int (length (ents (lruList c) rs)) = capacity c
                then tl (ents (lruList c) rs) else ents (lruList c) rs)))"
proof (cases "int (length rs) = capacity c")
  case False
  then have "Set_evict eq c = (Return (), c)"
    using inv by (simp add: Set_evict_def LRUList_Size_def tinv_def linv_def)
  with False le inv show ?thesis by auto
next
  case True
  let ?l = "lruList c"
  from True have sz: "LRUList_Size ?l = capacity c"
    using inv by (simp add: LRUList_Size_def tinv_def linv_def)
  show ?thesis
  proof (cases rs)
    case Nil
    with inv have "PopBack ?l = (Panic, ?l)" by (simp add: PopBack_empty tinv_def)
    with sz Nil True show ?thesis by (simp add: Set_evict_def)
  next
    case (Cons r rs2)
    from inv have li: "linv ?l (r # rs2)" by (simp add: tinv_def Cons)
    then have d: "distinct (r # rs2)" by (simp add: linv_def)
    from PopBack_linv[OF li] obtain l2 where
      p: "PopBack ?l = (Return (Some (Node r), None), l2)" "linv l2 rs2" "fresh l2 = fresh ?l"
        "\<forall>x. Key (heap l2 x) = Key (heap ?l x) \<and> Value (heap l2 x) = Value (heap ?l x)"
      by blast
    let ?kr = "Key (heap ?l (Node r))"
    let ?c2 = "c\<lparr>lruList := l2, cache := map_delete eq (cache c) ?kr\<rparr>"
    have e2: "\<And>xs. ents l2 xs = ents ?l xs" using p(4) by (simp add: ents_def)
    have eq2: "Set_evict eq c = (Return (), ?c2)"
      using sz p(1) p(4) by (simp add: Set_evict_def)
    from inv have A: "\<forall>a\<in>set rs. \<forall>b\<in>set rs.
        eq (Key (heap ?l (Node a))) (Key (heap ?l (Node b))) \<longrightarrow> a = b"
      and E: "\<forall>e\<in>set (cache c). \<exists>x<fresh ?l. e = (Key (heap ?l (Node x)), Some (Node x))"
      and R: "\<forall>e\<in>set (cache c). eq (fst e) (fst e) \<and> \<not> eq (fst e) key \<longrightarrow>
          (\<exists>x\<in>set rs. snd e = Some (Node x))"
      and N: "\<forall>x\<in>set rs. (Key (heap ?l (Node x)), Some (Node x)) \<in> set (cache c)"
      and D: "distinct (map snd (cache c))"
      and F: "\<forall>x\<in>set rs. \<not> eq (Key (heap ?l (Node x))) key"
      by (simp_all add: tinv_def)
    have R2: "\<forall>e\<in>set (map_delete eq (cache c) ?kr). eq (fst e) (fst e) \<and> \<not> eq (fst e) key \<longrightarrow>
        (\<exists>x\<in>set rs2. snd e = Some (Node x))"
    proof (intro ballI impI)
      fix e assume e: "e \<in> set (map_delete eq (cache c) ?kr)"
        "eq (fst e) (fst e) \<and> \<not> eq (fst e) key"
      then have ein: "e \<in> set (cache c)" and nkr: "\<not> eq (fst e) ?kr"
        by (simp_all add: map_delete_def)
      from R ein e(2) obtain x where x: "x \<in> set rs" "snd e = Some (Node x)" by blast
      from E ein obtain x' where "e = (Key (heap ?l (Node x')), Some (Node x'))" by blast
      with x(2) have "fst e = Key (heap ?l (Node x))" by auto
      with e(2) nkr have "x \<noteq> r" by auto
      with x show "\<exists>x\<in>set rs2. snd e = Some (Node x)" by (auto simp: Cons)
    qed
    have N2: "\<forall>x\<in>set rs2. (Key (heap ?l (Node x)), Some (Node x)) \<in> set (map_delete eq (cache c) ?kr)"
    proof
      fix x assume x: "x \<in> set rs2"
      with N have "(Key (heap ?l (Node x)), Some (Node x)) \<in> set (cache c)" by (simp add: Cons)
      moreover have "\<not> eq (Key (heap ?l (Node x))) ?kr"
      proof
        assume "eq (Key (heap ?l (Node x))) ?kr"
        with A x have "x = r" by (auto simp: Cons)
        with x d show False by simp
      qed
      ultimately show "(Key (heap ?l (Node x)), Some (Node x)) \<in> set (map_delete eq (cache c) ?kr)"
        by (simp add: map_delete_def)
    qed
    have "tinv eq key ?c2 rs2"
      unfolding tinv_def
    proof (intro conjI)
      show "linv (lruList ?c2) rs2" using p(2) by simp
      show "\<forall>a\<in>set rs2. \<forall>b\<in>set rs2.
          eq (Key (heap (lruList ?c2) (Node a))) (Key (heap (lruList ?c2) (Node b))) \<longrightarrow> a = b"
        using A p(4) by (auto simp: Cons)
      show "\<forall>e\<in>set (cache ?c2). \<exists>x<fresh (lruList ?c2).
          e = (Key (heap (lruList ?c2) (Node x)), Some (Node x))"
        using E p(3,4) by (simp add: map_delete_def)
      show "\<forall>e\<in>set (cache ?c2). eq (fst e) (fst e) \<and> \<not> eq (fst e) key \<longrightarrow>
          (\<exists>x\<in>set rs2. snd e = Some (Node x))"
        using R2 by simp
      show "\<forall>x\<in>set rs2. (Key (heap (lruList ?c2) (Node x)), Some (Node x)) \<in> set (cache ?c2)"
        using N2 p(4) by simp
      show "distinct (map snd (cache ?c2))"
        using D by (simp add: map_delete_def distinct_map_filter)
      show "\<forall>x\<in>set rs2. \<not> eq (Key (heap (lruList ?c2) (Node x))) key"
        using F p(4) by (simp add: Cons)
    qed
    moreover have "ents l2 rs2 = tl (ents ?l rs)" by (simp add: e2 Cons)
    moreover have "0 < capacity c" "int (length rs2) < capacity c" using True Cons by simp_all
    ultimately show ?thesis using eq2 True
      by (intro disjI2 conjI exI[of _ ?c2] exI[of _ rs2]) simp_all
  qed
qed

lemma Set_push_tinv:
  assumes inv: "tinv eq key c rs" and lt: "int (length rs) < capacity c"
    and per: "symp eq" "transp eq"
  shows "\<exists>c3 rs3. Set_push eq key val c = (Return (), c3) \<and> cinv eq c3 rs3 \<and>
           capacity c3 = capacity c \<and>
           ents (lruList c3) rs3 = ents (lruList c) rs @ [(key, val)]"
proof -
  let ?l = "lruList c" and ?m = "fresh (lruList c)"
  from inv have li: "linv ?l rs" by (simp add: tinv_def)
  from PushFront_linv[OF li, of key val] obtain l3 where
    p: "PushFront key val ?l = (Return (Some (Node ?m)), l3)" "linv l3 (rs @ [?m])"
      "fresh l3 = Suc ?m"
      "Key (heap l3 (Node ?m)) = key" "Value (heap l3 (Node ?m)) = val"
      "\<forall>x. x \<noteq> Node ?m \<longrightarrow> Key (heap l3 x) = Key (heap ?l x) \<and> Value (heap l3 x) = Value (heap ?l x)"
    by blast
  have nin: "?m \<notin> set rs" using li by (auto simp: linv_def)
  let ?T = "map_assign eq (cache c) key (Some (Node ?m))"
  let ?c3 = "c\<lparr>lruList := l3, cache := ?T\<rparr>"
  have eq3: "Set_push eq key val c = (Return (), ?c3)" using p(1) by (simp add: Set_push_def)
  have frl: "Key (heap l3 (Node n)) = Key (heap ?l (Node n)) \<and>
      Value (heap l3 (Node n)) = Value (heap ?l (Node n))" if "n \<noteq> ?m" for n
    using p(6) that by simp
  have fr: "Key (heap l3 (Node n)) = Key (heap ?l (Node n))" if "n \<in> set rs" for n
    using frl[of n] that nin by auto
  have e3: "ents l3 rs = ents ?l rs"
  proof (rule ents_cong)
    fix n assume "n \<in> set rs"
    with nin have "n \<noteq> ?m" by auto
    then show "Key (heap l3 (Node n)) = Key (heap ?l (Node n)) \<and>
        Value (heap l3 (Node n)) = Value (heap ?l (Node n))" by (rule frl)
  qed
  from inv have A: "\<forall>a\<in>set rs. \<forall>b\<in>set rs.
      eq (Key (heap ?l (Node a))) (Key (heap ?l (Node b))) \<longrightarrow> a = b"
    and E: "\<forall>e\<in>set (cache c). \<exists>x<?m. e = (Key (heap ?l (Node x)), Some (Node x))"
    and R: "\<forall>e\<in>set (cache c). eq (fst e) (fst e) \<and> \<not> eq (fst e) key \<longrightarrow>
        (\<exists>x\<in>set rs. snd e = Some (Node x))"
    and N: "\<forall>x\<in>set rs. (Key (heap ?l (Node x)), Some (Node x)) \<in> set (cache c)"
    and D: "distinct (map snd (cache c))"
    and F: "\<forall>x\<in>set rs. \<not> eq (Key (heap ?l (Node x))) key"
    by (simp_all add: tinv_def)
  have F': "\<forall>x\<in>set rs. \<not> eq key (Key (heap ?l (Node x)))"
    using F per(1) by (meson sympD)
  have A3: "\<forall>a\<in>set (rs @ [?m]). \<forall>b\<in>set (rs @ [?m]).
      eq (Key (heap l3 (Node a))) (Key (heap l3 (Node b))) \<longrightarrow> a = b"
    using A F F' fr p(4) by auto
  have E3: "\<forall>e\<in>set ?T. \<exists>x<Suc ?m. e = (Key (heap l3 (Node x)), Some (Node x))"
  proof
    fix e assume "e \<in> set ?T"
    then consider "e \<in> set (cache c)" | "e = (key, Some (Node ?m))"
      by (auto simp: map_assign_def)
    then show "\<exists>x<Suc ?m. e = (Key (heap l3 (Node x)), Some (Node x))"
    proof cases
      case 1
      with E obtain x where x: "x < ?m" "e = (Key (heap ?l (Node x)), Some (Node x))" by blast
      with frl[of x] have "e = (Key (heap l3 (Node x)), Some (Node x))" by simp
      with x(1) show ?thesis by (intro exI[of _ x]) simp
    next
      case 2
      with p(4) show ?thesis by (intro exI[of _ ?m]) simp
    qed
  qed
  have R3: "\<forall>e\<in>set ?T. eq (fst e) (fst e) \<longrightarrow> (\<exists>x\<in>set (rs @ [?m]). snd e = Some (Node x))"
    using R by (auto simp: map_assign_def)
  have N3: "\<forall>x\<in>set (rs @ [?m]). (Key (heap l3 (Node x)), Some (Node x)) \<in> set ?T"
    using N F fr p(4) by (auto simp: map_assign_def)
  have D3: "distinct (map snd ?T)"
  proof -
    have "Some (Node ?m) \<notin> snd ` set (cache c)" using E by fastforce
    then show ?thesis using D by (auto simp: map_assign_def distinct_map_filter)
  qed
  have "cinv eq ?c3 (rs @ [?m])"
    unfolding cinv_def
    using p(2) p(3) lt A3 E3 R3 N3 D3 by simp
  moreover have "ents l3 (rs @ [?m]) = ents ?l rs @ [(key, val)]"
    using p(4) p(5) by (simp add: e3)
  ultimately show ?thesis using eq3
    by (intro exI[of _ ?c3] exI[of _ "rs @ [?m]"]) simp
qed

lemma Set_cinv:
  assumes inv: "cinv eq c rs" and per: "symp eq" "transp eq"
  shows "(capacity c = 0 \<and> rs = [] \<and> Set eq key val c = (Panic, c)) \<or>
         (0 < capacity c \<and>
          (\<exists>c' rs'. Set eq key val c = (Return (), c') \<and> cinv eq c' rs' \<and>
             capacity c' = capacity c \<and>
             ents (lruList c') rs' = aset eq key val (capacity c) (ents (lruList c) rs)))"
proof -
  from Set_remove_old_cinv[OF inv per, of key] obtain c1 rs1 where
    s1: "Set_remove_old eq key c = (Return (), c1)" "tinv eq key c1 rs1"
      "capacity c1 = capacity c" "int (length rs1) \<le> capacity c"
      "ents (lruList c1) rs1 = filter (\<lambda>e. \<not> eq (fst e) key) (ents (lruList c) rs)"
    by blast
  from s1(3) s1(4) have le: "int (length rs1) \<le> capacity c1" by simp
  from Set_evict_tinv[OF s1(2) le] show ?thesis
  proof (elim disjE conjE exE)
    assume z: "capacity c1 = 0" "rs1 = []" "Set_evict eq c1 = (Panic, c1)"
    from inv z(1) s1(3) have "rs = []" by (simp add: cinv_def)
    have "map_lookup eq (cache c) key = None"
    proof (cases "map_lookup eq (cache c) key")
      case (Some p)
      from lookup_cinv[OF inv per Some] \<open>rs = []\<close> show ?thesis by simp
    qed simp
    then have "c1 = c" using s1(1) by (simp add: Set_remove_old_def)
    with z s1 \<open>rs = []\<close> show ?thesis by (simp add: Set_def)
  next
    fix c2 rs2
    assume pos: "0 < capacity c1"
      and s2: "Set_evict eq c1 = (Return (), c2)" "tinv eq key c2 rs2" "capacity c2 = capacity c1"
        "int (length rs2) < capacity c1"
        "ents (lruList c2) rs2 =
           (if int (length (ents (lruList c1) rs1)) = capacity c1
            then tl (ents (lruList c1) rs1) else ents (lruList c1) rs1)"
    from s2(3) s2(4) have lt: "int (length rs2) < capacity c2" by simp
    from Set_push_tinv[OF s2(2) lt per, of val] obtain c3 rs3 where
      s3: "Set_push eq key val c2 = (Return (), c3)" "cinv eq c3 rs3" "capacity c3 = capacity c2"
        "ents (lruList c3) rs3 = ents (lruList c2) rs2 @ [(key, val)]"
      by blast
    have "Set eq key val c = (Return (), c3)" by (simp add: Set_def s1(1) s2(1) s3(1))
    moreover have "ents (lruList c3) rs3 = aset eq key val (capacity c) (ents (lruList c) rs)"
      by (simp add: s3(4) s2(5) s1(5) s1(3) aset_def Let_def)
    ultimately show ?thesis using pos s1(3) s2(3) s3(2) s3(3) by auto
  qed
qed

lemma NewLRUCache_cinv: "NewLRUCache zk zv cap = Inr c \<Longrightarrow> cinv eq c []"
  by (auto simp: NewLRUCache_def cinv_def linv_NewLRUList split: if_splits)

lemma cinv_same_set:
  assumes "cinv eq c rs" and "linv l' rs'" and "set rs' = set rs" and "length rs' = length rs"
    and "fresh l' = fresh (lruList c)"
    and "\<forall>x. Key (heap l' x) = Key (heap (lruList c) x)"
  shows "cinv eq (c\<lparr>lruList := l'\<rparr>) rs'"
  using assms by (simp add: cinv_def)

lemma Get_cinv:
  assumes inv: "cinv eq c rs" and per: "symp eq" "transp eq"
  shows "(map_lookup eq (cache c) key = None \<and> Get eq zv key c = (Return (zv, False), c)) \<or>
         (\<exists>as n cs c'. rs = as @ n # cs \<and>
            map_lookup eq (cache c) key = Some (Some (Node n)) \<and>
            eq (Key (heap (lruList c) (Node n))) key \<and>
            Get eq zv key c = (Return (Value (heap (lruList c) (Node n)), True), c') \<and>
            cinv eq c' (as @ cs @ [n]) \<and> cache c' = cache c \<and> capacity c' = capacity c \<and>
            (\<forall>x. Key (heap (lruList c') x) = Key (heap (lruList c) x) \<and>
                 Value (heap (lruList c') x) = Value (heap (lruList c) x)))"
proof (cases "map_lookup eq (cache c) key")
  case None
  then show ?thesis by (simp add: Get_def)
next
  case (Some p)
  let ?l = "lruList c"
  from lookup_cinv[OF inv per Some] obtain n where
    n: "n \<in> set rs" "p = Some (Node n)" "eq (Key (heap ?l (Node n))) key" by blast
  then obtain as cs where rs: "rs = as @ n # cs" by (auto dest: split_list)
  from inv have li: "linv ?l (as @ n # cs)" by (simp add: cinv_def rs)
  from MoveToFront_linv[OF li] obtain l1 where
    m: "MoveToFront (Some (Node n)) ?l = (Return None, l1)"
      "linv l1 (as @ cs @ [n])" "fresh l1 = fresh ?l"
      "\<forall>x. Key (heap l1 x) = Key (heap ?l x) \<and> Value (heap l1 x) = Value (heap ?l x)"
    by blast
  let ?c' = "c\<lparr>lruList := l1\<rparr>"
  have eq1: "Get eq zv key c = (Return (Value (heap ?l (Node n)), True), ?c')"
    using Some n(2) m(1) m(4) by (simp add: Get_def)
  have "cinv eq ?c' (as @ cs @ [n])"
    using inv m(2) m(3) m(4) by (intro cinv_same_set) (auto simp: rs)
  then show ?thesis using eq1 rs Some n m(4)
    by (intro disjI2 exI[of _ as] exI[of _ n] exI[of _ cs] exI[of _ ?c']) simp
qed

lemma Delete_cinv:
  assumes inv: "cinv eq c rs" and per: "symp eq" "transp eq"
  shows "(map_lookup eq (cache c) key = None \<and>
          Delete eq key c = (Return (Some (NotFound key)), c)) \<or>
         (\<exists>as n cs c'. rs = as @ n # cs \<and>
            map_lookup eq (cache c) key = Some (Some (Node n)) \<and>
            eq (Key (heap (lruList c) (Node n))) key \<and>
            Delete eq key c = (Return None, c') \<and>
            cinv eq c' (as @ cs) \<and> cache c' = map_delete eq (cache c) key \<and>
            capacity c' = capacity c \<and>
            (\<forall>x. Key (heap (lruList c') x) = Key (heap (lruList c) x) \<and>
                 Value (heap (lruList c') x) = Value (heap (lruList c) x)))"
proof (cases "map_lookup eq (cache c) key")
  case None
  then show ?thesis by (simp add: Delete_def)
next
  case (Some p)
  let ?l = "lruList c"
  from lookup_cinv[OF inv per Some] obtain n where
    n: "n \<in> set rs" "p = Some (Node n)" "eq (Key (heap ?l (Node n))) key" by blast
  then obtain as cs where rs: "rs = as @ n # cs" by (auto dest: split_list)
  from inv have li: "linv ?l (as @ n # cs)" by (simp add: cinv_def rs)
  then have d: "distinct (as @ n # cs)" by (simp add: linv_def)
  from Remove_linv[OF li] obtain l1 where
    r: "Remove (Some (Node n)) ?l = (Return (Some (Node n), None), l1)"
      "linv l1 (as @ cs)" "fresh l1 = fresh ?l"
      "\<forall>x. Key (heap l1 x) = Key (heap ?l x) \<and> Value (heap l1 x) = Value (heap ?l x)"
    by blast
  let ?T = "map_delete eq (cache c) key"
  let ?c' = "c\<lparr>lruList := l1, cache := ?T\<rparr>"
  have eq1: "Delete eq key c = (Return None, ?c')"
    using Some n(2) r(1) by (simp add: Delete_def)
  from inv have A: "\<forall>a\<in>set rs. \<forall>b\<in>set rs.
      eq (Key (heap ?l (Node a))) (Key (heap ?l (Node b))) \<longrightarrow> a = b"
    and E: "\<forall>e\<in>set (cache c). \<exists>x<fresh ?l. e = (Key (heap ?l (Node x)), Some (Node x))"
    and R: "\<forall>e\<in>set (cache c). eq (fst e) (fst e) \<longrightarrow> (\<exists>x\<in>set rs. snd e = Some (Node x))"
    and N: "\<forall>x\<in>set rs. (Key (heap ?l (Node x)), Some (Node x)) \<in> set (cache c)"
    and D: "distinct (map snd (cache c))"
    by (simp_all add: cinv_def)
  have R1: "\<forall>e\<in>set ?T. eq (fst e) (fst e) \<longrightarrow> (\<exists>x\<in>set (as @ cs). snd e = Some (Node x))"
  proof (intro ballI impI)
    fix e assume e: "e \<in> set ?T" "eq (fst e) (fst e)"
    then have ein: "e \<in> set (cache c)" and nk: "\<not> eq (fst e) key"
      by (simp_all add: map_delete_def)
    from R ein e(2) obtain x where x: "x \<in> set rs" "snd e = Some (Node x)" by blast
    from E ein obtain x' where "e = (Key (heap ?l (Node x')), Some (Node x'))" by blast
    with x(2) have "fst e = Key (heap ?l (Node x))" by auto
    with nk n(3) have "x \<noteq> n" by auto
    with x show "\<exists>x\<in>set (as @ cs). snd e = Some (Node x)" by (auto simp: rs)
  qed
  have N1: "\<forall>x\<in>set (as @ cs). (Key (heap ?l (Node x)), Some (Node x)) \<in> set ?T"
  proof
    fix x assume x: "x \<in> set (as @ cs)"
    with N have "(Key (heap ?l (Node x)), Some (Node x)) \<in> set (cache c)" by (auto simp: rs)
    moreover have "\<not> eq (Key (heap ?l (Node x))) key"
    proof
      assume "eq (Key (heap ?l (Node x))) key"
      moreover from per(1) n(3) have "eq key (Key (heap ?l (Node n)))" by (rule sympD)
      ultimately have "eq (Key (heap ?l (Node x))) (Key (heap ?l (Node n)))"
        using per(2) by (meson transpD)
      with A x n(1) have "x = n" by (auto simp: rs)
      with x d show False by auto
    qed
    ultimately show "(Key (heap ?l (Node x)), Some (Node x)) \<in> set ?T"
      by (simp add: map_delete_def)
  qed
  have "cinv eq ?c' (as @ cs)"
    unfolding cinv_def
  proof (intro conjI)
    show "linv (lruList ?c') (as @ cs)" using r(2) by simp
    show "int (length (as @ cs)) \<le> capacity ?c'" using inv by (simp add: cinv_def rs)
    show "\<forall>a\<in>set (as @ cs). \<forall>b\<in>set (as @ cs).
        eq (Key (heap (lruList ?c') (Node a))) (Key (heap (lruList ?c') (Node b))) \<longrightarrow> a = b"
      using A r(4) by (auto simp: rs)
    show "\<forall>e\<in>set (cache ?c'). \<exists>x<fresh (lruList ?c').
        e = (Key (heap (lruList ?c') (Node x)), Some (Node x))"
      using E r(3,4) by (simp add: map_delete_def)
    show "\<forall>e\<in>set (cache ?c'). eq (fst e) (fst e) \<longrightarrow> (\<exists>x\<in>set (as @ cs). snd e = Some (Node x))"
      using R1 by simp
    show "\<forall>x\<in>set (as @ cs). (Key (heap (lruList ?c') (Node x)), Some (Node x)) \<in> set (cache ?c')"
      using N1 r(4) by simp
    show "distinct (map snd (cache ?c'))"
      using D by (simp add: map_delete_def distinct_map_filter)
  qed
  then show ?thesis using eq1 rs Some n r(4)
    by (intro disjI2 exI[of _ as] exI[of _ n] exI[of _ cs] exI[of _ ?c']) simp
qed

lemma Flush_range_linv:
  assumes "linv l rs" and "\<forall>e\<in>set es. \<exists>x. snd e = Some (Node x)"
  shows "\<exists>l' rs'. Flush_range es l = (Return (), l') \<and> linv l' rs' \<and>
           set rs' = set rs - {x. Some (Node x) \<in> snd ` set es}"
  using assms
proof (induction es arbitrary: l rs)
  case Nil
  then show ?case by auto
next
  case (Cons e es)
  from Cons.prems(2) obtain x where x: "snd e = Some (Node x)" by auto
  have "\<exists>l1 rs1. Remove (Some (Node x)) l = (Return (if x \<in> set rs then (Some (Node x), None)
      else (None, Some ErrNotInList)), l1) \<and> linv l1 rs1 \<and> set rs1 = set rs - {x}"
  proof (cases "x \<in> set rs")
    case True
    then obtain as cs where rs: "rs = as @ x # cs" by (auto dest: split_list)
    from Cons.prems(1) have d: "distinct (as @ x # cs)" by (simp add: linv_def rs)
    from Remove_linv[of l as x cs] Cons.prems(1) rs obtain l1 where
      "Remove (Some (Node x)) l = (Return (Some (Node x), None), l1)" "linv l1 (as @ cs)"
      by blast
    moreover have "set (as @ cs) = set rs - {x}" using d by (auto simp: rs)
    ultimately show ?thesis using True by auto
  next
    case False
    with Cons.prems(1) have "lst (heap l (Node x)) \<noteq> Some L" by (simp add: linv_def)
    then have "Remove (Some (Node x)) l = (Return (None, Some ErrNotInList), l)"
      by (simp add: Remove_def)
    with False Cons.prems(1) show ?thesis by auto
  qed
  then obtain l1 rs1 v where
    r: "Remove (Some (Node x)) l = (Return v, l1)" "linv l1 rs1" "set rs1 = set rs - {x}"
    by blast
  from Cons.prems(2) have "\<forall>e\<in>set es. \<exists>x. snd e = Some (Node x)" by simp
  from Cons.IH[OF r(2) this] obtain l' rs' where
    ih: "Flush_range es l1 = (Return (), l')" "linv l' rs'"
      "set rs' = set rs1 - {x. Some (Node x) \<in> snd ` set es}"
    by blast
  have "Flush_range (e # es) l = (Return (), l')" by (simp add: x r(1) ih(1))
  moreover have "set rs' = set rs - {y. Some (Node y) \<in> snd ` set (e # es)}"
    using ih(3) r(3) x by auto
  ultimately show ?case using ih(2) by blast
qed

lemma Flush_cinv:
  assumes inv: "cinv eq c rs" and es: "set es = set (cache c)"
  shows "\<exists>c'. Flush es c = (Return (), c') \<and> cinv eq c' [] \<and> capacity c' = capacity c \<and>
           cache c' = []"
proof -
  from inv have li: "linv (lruList c) rs"
    and E: "\<forall>e\<in>set (cache c). \<exists>x<fresh (lruList c).
        e = (Key (heap (lruList c) (Node x)), Some (Node x))"
    and N: "\<forall>x\<in>set rs. (Key (heap (lruList c) (Node x)), Some (Node x)) \<in> set (cache c)"
    by (simp_all add: cinv_def)
  have a2: "\<forall>e\<in>set es. \<exists>x. snd e = Some (Node x)" using E es by fastforce
  from Flush_range_linv[OF li a2] obtain l' rs' where
    f: "Flush_range es (lruList c) = (Return (), l')" "linv l' rs'"
      "set rs' = set rs - {x. Some (Node x) \<in> snd ` set es}"
    by blast
  have "set rs' = {}"
  proof -
    have "Some (Node x) \<in> snd ` set es" if "x \<in> set rs" for x
      using N that es by force
    with f(3) show ?thesis by auto
  qed
  then have "rs' = []" by simp
  let ?c' = "c\<lparr>lruList := l', cache := []\<rparr>"
  have "Flush es c = (Return (), ?c')" by (simp add: Flush_def f(1))
  moreover have "cinv eq ?c' []"
    using f(2) \<open>rs' = []\<close> inv by (auto simp: cinv_def)
  ultimately show ?thesis by (intro exI[of _ ?c']) simp
qed

lemma reach_cinv:
  assumes "reach eq c" and per: "symp eq" "transp eq"
  shows "\<exists>rs. cinv eq c rs"
  using assms(1)
proof (induction rule: reach.induct)
  case (reach_NewLRUCache zk zv cap c)
  from NewLRUCache_cinv[OF this] show ?case by (rule exI)
next
  case (reach_Set c key val)
  then obtain rs where inv: "cinv eq c rs" by blast
  from Set_cinv[OF this per, of key val] inv show ?case by auto
next
  case (reach_Get c zv key)
  then obtain rs where inv: "cinv eq c rs" by blast
  from Get_cinv[OF this per, of key zv] inv show ?case by auto
next
  case (reach_Delete c key)
  then obtain rs where inv: "cinv eq c rs" by blast
  from Delete_cinv[OF this per, of key] inv show ?case by auto
next
  case (reach_Flush c es)
  then obtain rs where inv: "cinv eq c rs" by blast
  from reach_Flush.hyps(2) have "set es = set (cache c)" by (rule mset_eq_setD)
  from Flush_cinv[OF inv this] show ?case by auto
qed

section \<open>Sequences of Set calls\<close>

lemma Contains_cinv:
  assumes inv: "cinv eq c rs" and per: "symp eq" "transp eq"
  shows "Contains eq k c = (\<exists>e\<in>set (ents (lruList c) rs). eq (fst e) k)"
proof
  assume "Contains eq k c"
  then obtain p where "map_lookup eq (cache c) k = Some p" by (auto simp: Contains_def)
  from lookup_cinv[OF inv per this] show "\<exists>e\<in>set (ents (lruList c) rs). eq (fst e) k"
    by (auto simp: ents_def)
next
  assume "\<exists>e\<in>set (ents (lruList c) rs). eq (fst e) k"
  then obtain n where n: "n \<in> set rs" "eq (Key (heap (lruList c) (Node n))) k"
    by (auto simp: ents_def)
  with inv have "(Key (heap (lruList c) (Node n)), Some (Node n)) \<in> set (cache c)"
    by (simp add: cinv_def)
  with n(2) have "map_lookup eq (cache c) k \<noteq> None"
    unfolding map_lookup_None_iff by force
  then show "Contains eq k c" by (simp add: Contains_def)
qed

lemma Sets_cinv:
  assumes "cinv eq c rs" "0 < capacity c" and per: "symp eq" "transp eq"
  shows "\<exists>c' rs'. Sets eq kvs c = (Return (), c') \<and> cinv eq c' rs' \<and>
           capacity c' = capacity c \<and>
           ents (lruList c') rs' =
             fold (\<lambda>e. aset eq (fst e) (snd e) (capacity c)) kvs (ents (lruList c) rs)"
  using assms(1,2)
proof (induction kvs arbitrary: c rs)
  case Nil
  then show ?case by auto
next
  case (Cons e kvs)
  obtain k v where e: "e = (k, v)" by (cases e)
  from Set_cinv[OF Cons.prems(1) per, of k v] Cons.prems(2) obtain c1 rs1 where
    s: "Set eq k v c = (Return (), c1)" "cinv eq c1 rs1" "capacity c1 = capacity c"
      "ents (lruList c1) rs1 = aset eq k v (capacity c) (ents (lruList c) rs)"
    by auto
  from s(3) Cons.prems(2) have pos: "0 < capacity c1" by simp
  from Cons.IH[OF s(2) pos] obtain c' rs' where
    ih: "Sets eq kvs c1 = (Return (), c')" "cinv eq c' rs'" "capacity c' = capacity c1"
      "ents (lruList c') rs' =
         fold (\<lambda>e. aset eq (fst e) (snd e) (capacity c1)) kvs (ents (lruList c1) rs1)"
    by blast
  have "Sets eq (e # kvs) c = (Return (), c')" by (simp add: e s(1) ih(1))
  moreover have "ents (lruList c') rs' =
      fold (\<lambda>e. aset eq (fst e) (snd e) (capacity c)) (e # kvs) (ents (lruList c) rs)"
    by (simp add: ih(4) s(3) s(4) e)
  ultimately show ?case using ih(2) ih(3) s(3) by auto
qed

lemma filter_unequal_id:
  "\<forall>e\<in>set xs. \<not> eq (fst e) k \<Longrightarrow> filter (\<lambda>e. \<not> eq (fst e) k) xs = xs"
  by (induction xs) auto

lemma aset_fresh:
  "\<forall>e\<in>set xs. \<not> eq (fst e) k \<Longrightarrow> int (length xs) < cap \<Longrightarrow>
   aset eq k v cap xs = xs @ [(k, v)]"
  by (simp add: aset_def filter_unequal_id)

lemma aset_full:
  "\<forall>e\<in>set xs. \<not> eq (fst e) k \<Longrightarrow> int (length xs) = cap \<Longrightarrow>
   aset eq k v cap xs = tl xs @ [(k, v)]"
  by (simp add: aset_def filter_unequal_id)

lemma unequal_append:
  "unequal eq (xs @ ys) =
     (unequal eq xs \<and> unequal eq ys \<and> (\<forall>x\<in>set xs. \<forall>y\<in>set ys. \<not> eq x y))"
  by (induction xs) (auto simp: list_all_iff)

lemma fold_aset_fresh:
  "unequal eq (map fst (xs @ kvs)) \<Longrightarrow> int (length xs + length kvs) \<le> cap \<Longrightarrow>
   fold (\<lambda>e. aset eq (fst e) (snd e) cap) kvs xs = xs @ kvs"
proof (induction kvs arbitrary: xs)
  case Nil
  then show ?case by simp
next
  case (Cons e kvs)
  from Cons.prems(1) have "\<forall>x\<in>set xs. \<not> eq (fst x) (fst e)"
    by (auto simp: unequal_append)
  moreover from Cons.prems(2) have "int (length xs) < cap" by simp
  ultimately have "aset eq (fst e) (snd e) cap xs = xs @ [e]"
    using aset_fresh[of xs eq "fst e" cap "snd e"] by simp
  moreover have "fold (\<lambda>e. aset eq (fst e) (snd e) cap) kvs (xs @ [e]) = (xs @ [e]) @ kvs"
    using Cons.prems by (intro Cons.IH) auto
  ultimately show ?case by simp
qed

lemma fold_aset_overflow:
  assumes d: "unequal eq (map fst kvs)" and len: "int (length kvs) = cap + 1" and cap: "1 \<le> cap"
  shows "fold (\<lambda>e. aset eq (fst e) (snd e) cap) kvs [] = tl kvs"
proof (cases kvs rule: rev_cases)
  case Nil
  with len cap show ?thesis by simp
next
  case (snoc as b)
  with len have la: "int (length as) = cap" by simp
  with cap have ne: "as \<noteq> []" by auto
  from d snoc have d1: "unequal eq (map fst ([] @ as))"
    and nb: "\<forall>e\<in>set as. \<not> eq (fst e) (fst b)"
    by (auto simp: unequal_append)
  from fold_aset_fresh[OF d1] la
  have "fold (\<lambda>e. aset eq (fst e) (snd e) cap) as [] = as" by simp
  moreover have "aset eq (fst b) (snd b) cap as = tl as @ [b]"
    using aset_full[of as eq "fst b" cap "snd b"] nb la by simp
  ultimately show ?thesis using ne by (simp add: snoc)
qed

section \<open>The example stores are reachable\<close>

lemma reach_example_cache: "reach (=) example_cache"
proof -
  have "NewLRUCache (0::int) (0::int) 2 =
      Inr \<lparr>lruList = NewLRUList 0 0, cache = [], capacity = 2\<rparr>"
    by (simp add: NewLRUCache_def)
  then have "reach (=) \<lparr>lruList = NewLRUList (0::int) (0::int), cache = [], capacity = 2\<rparr>"
    by (rule reach_NewLRUCache)
  then show ?thesis
    unfolding example_cache_def by (intro reach_Set reach_Get)
qed

lemma reach_nan_cache: "reach float64_eq nan_cache"
proof -
  have "NewLRUCache (Num 0) (0::int) 1 = Inr float_cache"
    by (simp add: NewLRUCache_def float_cache_def)
  then have "reach float64_eq float_cache" by (rule reach_NewLRUCache)
  then show ?thesis unfolding nan_cache_def by (intro reach_Set)
qed


lemma linked_reach:
  assumes "reach eq c"
  shows "linked (lruList c) r = (r \<in> set (nodes_of (lruList c)))"
proof -
  from reach_binv[OF assms] obtain rs where "linv (lruList c) rs" by (auto simp: binv_def)
  then show ?thesis by (simp add: linked_linv nodes_of_linv)
qed

lemma symp_eq: "symp ((=) :: 'a \<Rightarrow> 'a \<Rightarrow> bool)"
  by (simp add: sympI)

lemma transp_eq: "transp ((=) :: 'a \<Rightarrow> 'a \<Rightarrow> bool)"
  by (simp add: transpI)

lemma symp_float64_eq: "symp float64_eq"
  by (auto simp: float64_eq_def intro: sympI)

lemma transp_float64_eq: "transp float64_eq"
  by (auto simp: float64_eq_def intro: transpI)

lemma inj_entries:
  "distinct (map snd T) \<Longrightarrow> e \<in> set T \<Longrightarrow> e' \<in> set T \<Longrightarrow> snd e = snd e' \<Longrightarrow> e = e'"
  by (auto simp: distinct_map dest: inj_onD)

lemma card_nodes:
  "distinct rs \<Longrightarrow> card (set (map (\<lambda>n. Some (Node n)) rs)) = length rs"
proof -
  assume "distinct rs"
  then have "distinct (map (\<lambda>n. Some (Node n)) rs)"
    by (simp add: distinct_map inj_on_def)
  from distinct_card[OF this] show ?thesis by simp
qed

lemma length_le_entries:
  assumes "cinv eq c rs"
  shows "length rs \<le> length (cache c)"
proof -
  from assms have d: "distinct rs"
    and N: "\<forall>x\<in>set rs. (Key (heap (lruList c) (Node x)), Some (Node x)) \<in> set (cache c)"
    by (simp_all add: cinv_def linv_def)
  have "length rs = card (set (map (\<lambda>n. Some (Node n)) rs))"
    using card_nodes[OF d] by simp
  also have "\<dots> \<le> card (set (map snd (cache c)))"
    using N by (intro card_mono) force+
  also have "\<dots> \<le> length (cache c)"
    using card_length[of "map snd (cache c)"] by simp
  finally show ?thesis .
qed

lemma length_eq_entries:
  assumes "cinv eq c rs" and "\<forall>e\<in>set (cache c). eq (fst e) (fst e)"
  shows "length (cache c) = length rs"
proof -
  from assms(1) have d: "distinct rs"
    and R: "\<forall>e\<in>set (cache c). eq (fst e) (fst e) \<longrightarrow> (\<exists>n\<in>set rs. snd e = Some (Node n))"
    and N: "\<forall>x\<in>set rs. (Key (heap (lruList c) (Node x)), Some (Node x)) \<in> set (cache c)"
    and D: "distinct (map snd (cache c))"
    by (simp_all add: cinv_def linv_def)
  have "set (map snd (cache c)) = set (map (\<lambda>n. Some (Node n)) rs)"
  proof (intro set_eqI iffI)
    fix p assume "p \<in> set (map snd (cache c))"
    then obtain e where "e \<in> set (cache c)" "snd e = p" by auto
    with R assms(2) show "p \<in> set (map (\<lambda>n. Some (Node n)) rs)" by auto
  next
    fix p assume "p \<in> set (map (\<lambda>n. Some (Node n)) rs)"
    with N show "p \<in> set (map snd (cache c))" by force
  qed
  moreover have "card (set (map snd (cache c))) = length (cache c)"
    using D distinct_card[of "map snd (cache c)"] by simp
  moreover have "card (set (map (\<lambda>n. Some (Node n)) rs)) = length rs"
    by (rule card_nodes[OF d])
  ultimately show ?thesis by simp
qed

section \<open>The claims\<close>

text \<open>
  C1. \<open>NewLRUCache\<close> accepts the capacity 0, and on that cache \<open>Set(5,5)\<close> does not
  complete: the list is as long as the capacity, so \<open>Set\<close> calls \<open>PopBack\<close> on the empty
  list, which panics on the nil \<open>Back\<close>. The cache is left as it was.
\<close>

theorem Set_capacity_0_panics:
  "(case NewLRUCache (0::int) (0::int) 0 of
      Inl e \<Rightarrow> False
    | Inr c0 \<Rightarrow> Set (=) 5 5 c0 = (Panic, c0) \<and> PopBack (lruList c0) = (Panic, lruList c0))"
  by (simp add: NewLRUCache_def Set_def Set_remove_old_def Set_evict_def LRUList_Size_def
      PopBack_def Back_def Next_def Remove_def NewLRUList_def map_lookup_def)

text \<open>
  C2. On an empty list \<open>Front\<close> and \<open>Back\<close> are nil, not the sentinel, and \<open>Remove\<close>
  reads \<open>at.list\<close> of the nil pointer: \<open>PopFront\<close> and \<open>PopBack\<close> panic, and no
  \<open>ErrRoot\<close> is returned.
\<close>

theorem PopFront_PopBack_empty_panic:
  "Front (NewLRUList (0::int) (0::int)) = None \<and>
   Back (NewLRUList (0::int) (0::int)) = None \<and>
   PopFront (NewLRUList (0::int) (0::int)) = (Panic, NewLRUList 0 0) \<and>
   PopBack (NewLRUList (0::int) (0::int)) = (Panic, NewLRUList 0 0)"
  by (simp add: PopFront_def PopBack_def Front_def Back_def Prev_def Next_def Remove_def
      NewLRUList_def)

text \<open>
  C3. In every cache reachable from \<open>NewLRUCache\<close> by \<open>Set\<close>, \<open>Get\<close>, \<open>Delete\<close> and
  \<open>Flush\<close> (\<open>Contains\<close> changes nothing), the size is at least 0 and at most the
  capacity, whatever the \<open>==\<close> of the key type is.
\<close>

theorem Size_within_Capacity:
  assumes "reach eq c"
  shows "0 \<le> Size c \<and> Size c \<le> Capacity c"
proof -
  from reach_binv[OF assms] obtain rs where "binv c rs" by blast
  then show ?thesis
    by (simp add: binv_def linv_def Size_def Capacity_def LRUList_Size_def)
qed

theorem Size_within_Capacity_witness:
  "reach (=) (snd (Set (=) 3 3 (snd (Set (=) 2 2 (snd (Set (=) (1::int) (1::int)
      \<lparr>lruList = NewLRUList 0 0, cache = [], capacity = 2\<rparr>)))))) \<and>
   0 \<le> Size (snd (Set (=) 3 3 (snd (Set (=) 2 2 (snd (Set (=) (1::int) (1::int)
      \<lparr>lruList = NewLRUList 0 0, cache = [], capacity = 2\<rparr>)))))) \<and>
   Size (snd (Set (=) 3 3 (snd (Set (=) 2 2 (snd (Set (=) (1::int) (1::int)
      \<lparr>lruList = NewLRUList 0 0, cache = [], capacity = 2\<rparr>)))))) \<le> 2"
proof -
  let ?c0 = "\<lparr>lruList = NewLRUList (0::int) (0::int), cache = [], capacity = 2\<rparr>"
  have "NewLRUCache (0::int) (0::int) 2 = Inr ?c0" by (simp add: NewLRUCache_def)
  then have "reach (=) ?c0" by (rule reach_NewLRUCache)
  then have r: "reach (=) (snd (Set (=) 3 3 (snd (Set (=) 2 2 (snd (Set (=) 1 1 ?c0))))))"
    by (intro reach_Set)
  have cap: "Capacity (snd (Set (=) 3 3 (snd (Set (=) 2 2 (snd (Set (=) 1 1 ?c0)))))) = 2"
    by code_simp
  from Size_within_Capacity[OF r] r cap show ?thesis by simp
qed

text \<open>
  C4. On a fresh cache of capacity 2, \<open>Set(1,1)\<close>, \<open>Set(2,2)\<close>, \<open>Get(1)\<close>, \<open>Set(3,3)\<close> all
  return, \<open>Get(1)\<close> returns \<open>(1, true)\<close>, and afterwards the cache contains 1 and 3, does
  not contain 2, and has size 2.
\<close>

theorem scenario_A_promotion:
  "(case NewLRUCache (0::int) (0::int) 2 of
      Inl e \<Rightarrow> False
    | Inr c0 \<Rightarrow>
        (let (r1, c1) = Set (=) 1 1 c0;
             (r2, c2) = Set (=) 2 2 c1;
             (g, c3) = Get (=) 0 1 c2;
             (r4, c4) = Set (=) 3 3 c3
         in r1 = Return () \<and> r2 = Return () \<and> g = Return (1, True) \<and> r4 = Return () \<and>
            Contains (=) 1 c4 \<and> \<not> Contains (=) 2 c4 \<and> Contains (=) 3 c4 \<and> Size c4 = 2))"
  by code_simp

text \<open>
  C5, as the claim states it, fails on keys that differ from themselves: on a fresh
  \<open>float64\<close> cache of capacity 1, after \<open>Set(1.0, 1)\<close> and \<open>Set(NaN, 2)\<close> on the two
  distinct keys, the second key is not present.
\<close>

theorem Sets_NaN_key_not_present:
  "NewLRUCache (Num 0) (0::int) 1 = Inr float_cache \<and>
   distinct [Num 1, NaN] \<and>
   fst (Sets float64_eq [(Num 1, 1), (NaN, 2)] float_cache) = Return () \<and>
   \<not> Contains float64_eq NaN (snd (Sets float64_eq [(Num 1, 1), (NaN, 2)] float_cache))"
proof -
  have "NewLRUCache (Num 0) (0::int) 1 = Inr float_cache"
    by (simp add: NewLRUCache_def float_cache_def)
  moreover have "fst (Sets float64_eq [(Num 1, 1), (NaN, 2)] float_cache) = Return ()"
    by code_simp
  moreover have
    "\<not> Contains float64_eq NaN (snd (Sets float64_eq [(Num 1, 1), (NaN, 2)] float_cache))"
    by code_simp
  ultimately show ?thesis by simp
qed

text \<open>
  C5, amended. Let \<open>==\<close> be symmetric and transitive. On a fresh cache of capacity \<open>C\<close>,
  at least 1, \<open>Set\<close> calls on \<open>C + 1\<close> pairwise unequal keys, with no call in between,
  all return. Afterwards the first key is absent, every other key that is equal to
  itself is present, the cache contains a key exactly when one of the keys after the
  first is equal to it, and the size is \<open>C\<close>.
\<close>

theorem Sets_evict_first_key:
  assumes "symp eq" and "transp eq" and "1 \<le> cap" and "NewLRUCache zk zv cap = Inr c0"
    and "unequal eq (map fst kvs)" and "int (length kvs) = cap + 1"
  shows "\<exists>c'. Sets eq kvs c0 = (Return (), c') \<and>
           \<not> Contains eq (fst (hd kvs)) c' \<and>
           (\<forall>k\<in>set (map fst (tl kvs)). eq k k \<longrightarrow> Contains eq k c') \<and>
           (\<forall>k. Contains eq k c' = (\<exists>k'\<in>set (map fst (tl kvs)). eq k' k)) \<and>
           Size c' = cap"
proof -
  from NewLRUCache_cinv[OF assms(4)] have inv: "cinv eq c0 []" .
  from assms(3,4) have c0: "capacity c0 = cap" "0 < capacity c0"
    by (auto simp: NewLRUCache_def split: if_splits)
  from Sets_cinv[OF inv c0(2) assms(1,2), of kvs] obtain c' rs' where
    s: "Sets eq kvs c0 = (Return (), c')" "cinv eq c' rs'"
      "ents (lruList c') rs' = fold (\<lambda>e. aset eq (fst e) (snd e) (capacity c0)) kvs []"
    by auto
  from s(3) have e: "ents (lruList c') rs' = tl kvs"
    using fold_aset_overflow[OF assms(5,6,3)] c0(1) by simp
  have con: "Contains eq k c' = (\<exists>k'\<in>set (map fst (tl kvs)). eq k' k)" for k
    using Contains_cinv[OF s(2) assms(1,2), of k] e by auto
  have ne: "kvs \<noteq> []" using assms(3,6) by auto
  have "\<not> Contains eq (fst (hd kvs)) c'"
  proof
    assume "Contains eq (fst (hd kvs)) c'"
    with con obtain k' where k': "k' \<in> set (map fst (tl kvs))" "eq k' (fst (hd kvs))" by blast
    from assms(1) k'(2) have "eq (fst (hd kvs)) k'" by (rule sympD)
    moreover from ne assms(5) k'(1) have "\<not> eq (fst (hd kvs)) k'"
      by (cases kvs) (auto simp: list_all_iff)
    ultimately show False by simp
  qed
  moreover have "Size c' = cap"
  proof -
    have "length rs' = length (tl kvs)" using e length_ents[of "lruList c'" rs'] by simp
    with ne assms(6) have "int (length rs') = cap" by (cases kvs) auto
    moreover have "Size c' = int (length rs')"
      using s(2) by (simp add: Size_def LRUList_Size_def cinv_def linv_def)
    ultimately show ?thesis by simp
  qed
  moreover have "\<forall>k\<in>set (map fst (tl kvs)). eq k k \<longrightarrow> Contains eq k c'"
    using con by blast
  ultimately show ?thesis using s(1) con by blast
qed

theorem Sets_evict_first_key_witness:
  "(1::int) \<le> 2 \<and>
   NewLRUCache (0::int) (0::int) 2 =
     Inr \<lparr>lruList = NewLRUList 0 0, cache = [], capacity = 2\<rparr> \<and>
   (10::int) \<noteq> 20 \<and> (10::int) \<noteq> 30 \<and> (20::int) \<noteq> 30 \<and>
   int (length [(10::int, 1::int), (20, 2), (30, 3)]) = 2 + 1 \<and>
   (\<exists>c'. Sets (=) [(10::int, 1::int), (20, 2), (30, 3)]
            \<lparr>lruList = NewLRUList 0 0, cache = [], capacity = 2\<rparr> = (Return (), c') \<and>
      \<not> Contains (=) 10 c' \<and> Contains (=) 20 c' \<and> Contains (=) 30 c' \<and> Size c' = 2)"
proof -
  have n: "NewLRUCache (0::int) (0::int) 2 =
      Inr \<lparr>lruList = NewLRUList 0 0, cache = [], capacity = 2\<rparr>"
    by (simp add: NewLRUCache_def)
  have d: "unequal (=) (map fst [(10::int, 1::int), (20, 2), (30, 3)])" by simp
  have l: "int (length [(10::int, 1::int), (20, 2), (30, 3)]) = 2 + 1" by simp
  have one: "(1::int) \<le> 2" by simp
  from Sets_evict_first_key[OF symp_eq transp_eq one n d l] obtain c' where
    c': "Sets (=) [(10::int, 1::int), (20, 2), (30, 3)]
           \<lparr>lruList = NewLRUList 0 0, cache = [], capacity = 2\<rparr> = (Return (), c')"
      "\<not> Contains (=) (fst (hd [(10::int, 1::int), (20, 2), (30, 3)])) c'"
      "\<forall>k\<in>set (map fst (tl [(10::int, 1::int), (20, 2), (30, 3)])). k = k \<longrightarrow> Contains (=) k c'"
      "Size c' = 2"
    by blast
  from c'(3) have k: "Contains (=) 20 c'" "Contains (=) 30 c'" by simp_all
  from c'(2) have a: "\<not> Contains (=) 10 c'" by simp
  have ne: "(10::int) \<noteq> 20" "(10::int) \<noteq> 30" "(20::int) \<noteq> 30" by simp_all
  show ?thesis by (intro conjI exI[of _ c'] one n l c'(1) a c'(4) k ne)
qed

text \<open>
  C6, as the claim states it, fails on keys that differ from themselves: a \<open>float64\<close>
  cache of capacity 1 is reachable, by \<open>Set(NaN,1)\<close> and \<open>Set(NaN,2)\<close>, in which the
  table has two entries and the list one node, and the first entry has a node that is
  not linked in the list.
\<close>

theorem table_disagrees_on_NaN:
  "reach float64_eq nan_cache \<and>
   int (length (cache nan_cache)) = 2 \<and> Size nan_cache = 1 \<and>
   cache nan_cache = [(NaN, Some (Node 0)), (NaN, Some (Node 1))] \<and>
   \<not> linked (lruList nan_cache) (Node 0)"
proof -
  have "cache nan_cache = [(NaN, Some (Node 0)), (NaN, Some (Node 1))]" by code_simp
  moreover have "Size nan_cache = 1" by code_simp
  moreover have "nodes_of (lruList nan_cache) = [Node 1]" by code_simp
  then have "\<not> linked (lruList nan_cache) (Node 0)"
    by (simp add: linked_reach[OF reach_nan_cache])
  ultimately show ?thesis using reach_nan_cache by simp
qed

text \<open>
  C6, amended. Let \<open>==\<close> be symmetric and transitive. In every reachable cache, every
  node linked in the list is the node of exactly one entry of the table; every entry
  whose key is equal to itself has a node that is linked in the list and holds that key;
  and the table has at least as many entries as the list has nodes. It has exactly as
  many when every key in the table is equal to itself, which is so when no key that
  differs from itself (a NaN) has been set.
\<close>

theorem table_agrees_with_list:
  assumes "reach eq c" and "symp eq" and "transp eq"
  shows "Size c \<le> int (length (cache c)) \<and>
         (list_all (\<lambda>e. eq (fst e) (fst e)) (cache c) \<longrightarrow> int (length (cache c)) = Size c) \<and>
         (\<forall>e\<in>set (cache c). eq (fst e) (fst e) \<longrightarrow>
            (\<exists>r. snd e = Some r \<and> linked (lruList c) r \<and> Key (heap (lruList c) r) = fst e)) \<and>
         (\<forall>r. linked (lruList c) r \<longrightarrow> (\<exists>!e. e \<in> set (cache c) \<and> snd e = Some r))"
proof -
  from reach_cinv[OF assms] obtain rs where inv: "cinv eq c rs" by blast
  then have li: "linv (lruList c) rs"
    and E: "\<forall>e\<in>set (cache c). \<exists>x<fresh (lruList c).
        e = (Key (heap (lruList c) (Node x)), Some (Node x))"
    and R: "\<forall>e\<in>set (cache c). eq (fst e) (fst e) \<longrightarrow> (\<exists>n\<in>set rs. snd e = Some (Node n))"
    and N: "\<forall>x\<in>set rs. (Key (heap (lruList c) (Node x)), Some (Node x)) \<in> set (cache c)"
    and D: "distinct (map snd (cache c))"
    by (simp_all add: cinv_def)
  have sz: "Size c = int (length rs)"
    using li by (simp add: Size_def LRUList_Size_def linv_def)
  have "Size c \<le> int (length (cache c))"
    using length_le_entries[OF inv] sz by simp
  moreover have "list_all (\<lambda>e. eq (fst e) (fst e)) (cache c) \<longrightarrow>
      int (length (cache c)) = Size c"
    using length_eq_entries[OF inv] sz by (simp add: list_all_iff)
  moreover have "\<exists>r. snd e = Some r \<and> linked (lruList c) r \<and> Key (heap (lruList c) r) = fst e"
    if e: "e \<in> set (cache c)" "eq (fst e) (fst e)" for e
  proof -
    from R e obtain n where n: "n \<in> set rs" "snd e = Some (Node n)" by blast
    from E e(1) obtain x where "e = (Key (heap (lruList c) (Node x)), Some (Node x))" by blast
    with n(2) have "Key (heap (lruList c) (Node n)) = fst e" by auto
    with n show ?thesis by (auto simp: linked_linv[OF li])
  qed
  moreover have "\<exists>!e. e \<in> set (cache c) \<and> snd e = Some r" if "linked (lruList c) r" for r
  proof -
    from that obtain n where n: "r = Node n" "n \<in> set rs" by (auto simp: linked_linv[OF li])
    show ?thesis
    proof (rule ex1I[of _ "(Key (heap (lruList c) (Node n)), Some (Node n))"])
      show "(Key (heap (lruList c) (Node n)), Some (Node n)) \<in> set (cache c) \<and>
          snd (Key (heap (lruList c) (Node n)), Some (Node n)) = Some r"
        using N n by simp
    next
      fix e assume "e \<in> set (cache c) \<and> snd e = Some r"
      with N n show "e = (Key (heap (lruList c) (Node n)), Some (Node n))"
        by (intro inj_entries[OF D]) auto
    qed
  qed
  ultimately show ?thesis by blast
qed

theorem table_agrees_with_list_witness:
  "reach (=) example_cache \<and>
   int (length (cache example_cache)) = Size example_cache \<and> Size example_cache = 2 \<and>
   (3, Some (Node 2)) \<in> set (cache example_cache) \<and>
   linked (lruList example_cache) (Node 2) \<and>
   Key (heap (lruList example_cache) (Node 2)) = 3 \<and>
   Size nan_cache \<le> int (length (cache nan_cache))"
proof -
  have sz: "Size example_cache = 2" by code_simp
  have e: "(3, Some (Node 2)) \<in> set (cache example_cache)" by code_simp
  have all: "list_all (\<lambda>e. fst e = fst e) (cache example_cache)" by (simp add: list_all_iff)
  from table_agrees_with_list[OF reach_example_cache symp_eq transp_eq] e all
  have "int (length (cache example_cache)) = Size example_cache"
    "linked (lruList example_cache) (Node 2)"
    "Key (heap (lruList example_cache) (Node 2)) = 3"
    by auto
  moreover from table_agrees_with_list[OF reach_nan_cache symp_float64_eq transp_float64_eq]
  have "Size nan_cache \<le> int (length (cache nan_cache))" by blast
  ultimately show ?thesis using reach_example_cache sz e by blast
qed

text \<open>
  C7. Let \<open>==\<close> be symmetric and transitive. In every reachable cache \<open>Get\<close> leaves the
  size and the table as they are. On a miss it returns the zero value and false, and the
  cache is unchanged. On a hit it returns the value of the node of the key and true; the
  table, the keys and the values of all nodes are unchanged, the node holds a key equal
  to the one asked for, it is the front afterwards and the other nodes keep their order.
\<close>

theorem Get_frame:
  assumes "reach eq c" and "symp eq" and "transp eq"
  shows "Size (snd (Get eq zv key c)) = Size c \<and>
         cache (snd (Get eq zv key c)) = cache c \<and>
         (\<not> Contains eq key c \<longrightarrow> Get eq zv key c = (Return (zv, False), c)) \<and>
         (Contains eq key c \<longrightarrow>
            (\<exists>r c'. map_lookup eq (cache c) key = Some (Some r) \<and>
               eq (Key (heap (lruList c) r)) key \<and>
               Get eq zv key c = (Return (Value (heap (lruList c) r), True), c') \<and>
               cache c' = cache c \<and>
               (\<forall>x. Key (heap (lruList c') x) = Key (heap (lruList c) x) \<and>
                    Value (heap (lruList c') x) = Value (heap (lruList c) x)) \<and>
               Front (lruList c') = Some r \<and>
               nodes_of (lruList c') = filter (\<lambda>x. x \<noteq> r) (nodes_of (lruList c)) @ [r]))"
proof -
  from reach_cinv[OF assms] obtain rs where inv: "cinv eq c rs" by blast
  from Get_cinv[OF inv assms(2,3), of key zv] show ?thesis
  proof (elim disjE conjE exE)
    assume "map_lookup eq (cache c) key = None" "Get eq zv key c = (Return (zv, False), c)"
    then show ?thesis by (simp add: Contains_def)
  next
    fix as n cs c'
    assume h: "rs = as @ n # cs" "map_lookup eq (cache c) key = Some (Some (Node n))"
      "eq (Key (heap (lruList c) (Node n))) key"
      "Get eq zv key c = (Return (Value (heap (lruList c) (Node n)), True), c')"
      "cinv eq c' (as @ cs @ [n])" "cache c' = cache c"
      "\<forall>x. Key (heap (lruList c') x) = Key (heap (lruList c) x) \<and>
           Value (heap (lruList c') x) = Value (heap (lruList c) x)"
    from inv h(1) have li: "linv (lruList c) (as @ n # cs)" by (simp add: cinv_def)
    from h(5) have li': "linv (lruList c') (as @ cs @ [n])" by (simp add: cinv_def)
    from li have d: "distinct (as @ n # cs)" by (simp add: linv_def)
    have "Size c' = Size c"
      using li li' by (simp add: Size_def LRUList_Size_def linv_def)
    moreover have "Front (lruList c') = Some (Node n)"
      using Front_linv[OF li'] by simp
    moreover have "nodes_of (lruList c') =
        filter (\<lambda>x. x \<noteq> Node n) (nodes_of (lruList c)) @ [Node n]"
      using filter_neq_Node[OF d]
      by (simp add: nodes_of_linv[OF li] nodes_of_linv[OF li'])
    ultimately show ?thesis using h(2,3,4,6,7) by (simp add: Contains_def)
  qed
qed

theorem Get_frame_witness:
  "reach (=) example_cache \<and>
   \<not> Contains (=) 7 example_cache \<and>
   Get (=) 0 7 example_cache = (Return (0, False), example_cache) \<and>
   Contains (=) 1 example_cache \<and>
   (\<exists>r c'. map_lookup (=) (cache example_cache) 1 = Some (Some r) \<and>
      Get (=) 0 1 example_cache = (Return (1, True), c') \<and>
      Size c' = Size example_cache \<and> cache c' = cache example_cache \<and>
      Front (lruList c') = Some r \<and>
      nodes_of (lruList c') = filter (\<lambda>x. x \<noteq> r) (nodes_of (lruList example_cache)) @ [r])"
proof -
  have a: "\<not> Contains (=) 7 example_cache" by code_simp
  have p: "Contains (=) 1 example_cache" by code_simp
  have v: "fst (Get (=) 0 1 example_cache) = Return (1, True)" by code_simp
  from Get_frame[OF reach_example_cache symp_eq transp_eq, of 0 7] a
  have miss: "Get (=) 0 7 example_cache = (Return (0, False), example_cache)" by simp
  from Get_frame[OF reach_example_cache symp_eq transp_eq, of 0 1] p v
  show ?thesis using reach_example_cache a miss by fastforce
qed

text \<open>
  C8. Let \<open>==\<close> be symmetric and transitive. In every reachable cache, \<open>Delete\<close> of a key
  the cache does not contain returns the not-found error and leaves the cache
  unchanged; \<open>Delete\<close> of a key it contains returns no error, deletes the key from the
  table and takes its node out of the list, and leaves the order of the other nodes as
  it is.
\<close>

theorem Delete_absent_present:
  assumes "reach eq c" and "symp eq" and "transp eq"
  shows "(\<not> Contains eq key c \<longrightarrow> Delete eq key c = (Return (Some (NotFound key)), c)) \<and>
         (Contains eq key c \<longrightarrow>
            (\<exists>r c'. map_lookup eq (cache c) key = Some (Some r) \<and>
               Delete eq key c = (Return None, c') \<and>
               cache c' = map_delete eq (cache c) key \<and> \<not> Contains eq key c' \<and>
               \<not> linked (lruList c') r \<and>
               nodes_of (lruList c') = filter (\<lambda>x. x \<noteq> r) (nodes_of (lruList c)) \<and>
               Size c' = Size c - 1))"
proof -
  from reach_cinv[OF assms] obtain rs where inv: "cinv eq c rs" by blast
  from Delete_cinv[OF inv assms(2,3), of key] show ?thesis
  proof (elim disjE conjE exE)
    assume "map_lookup eq (cache c) key = None"
      "Delete eq key c = (Return (Some (NotFound key)), c)"
    then show ?thesis by (simp add: Contains_def)
  next
    fix as n cs c'
    assume h: "rs = as @ n # cs" "map_lookup eq (cache c) key = Some (Some (Node n))"
      "Delete eq key c = (Return None, c')" "cinv eq c' (as @ cs)"
      "cache c' = map_delete eq (cache c) key"
    from inv h(1) have li: "linv (lruList c) (as @ n # cs)" by (simp add: cinv_def)
    from h(4) have li': "linv (lruList c') (as @ cs)" by (simp add: cinv_def)
    from li have d: "distinct (as @ n # cs)" by (simp add: linv_def)
    have "Size c' = Size c - 1"
      using li li' by (simp add: Size_def LRUList_Size_def linv_def)
    moreover have "\<not> linked (lruList c') (Node n)"
      using d by (auto simp: linked_linv[OF li'])
    moreover have "nodes_of (lruList c') = filter (\<lambda>x. x \<noteq> Node n) (nodes_of (lruList c))"
      using filter_neq_Node[OF d]
      by (simp add: nodes_of_linv[OF li] nodes_of_linv[OF li'])
    moreover have "\<not> Contains eq key c'"
      by (simp add: Contains_def h(5) map_lookup_None_iff map_delete_def)
    ultimately show ?thesis using h(2,3,5) by (simp add: Contains_def)
  qed
qed

theorem Delete_absent_present_witness:
  "reach (=) example_cache \<and>
   \<not> Contains (=) 7 example_cache \<and>
   Delete (=) 7 example_cache = (Return (Some (NotFound 7)), example_cache) \<and>
   Contains (=) 3 example_cache \<and>
   (\<exists>r c'. map_lookup (=) (cache example_cache) 3 = Some (Some r) \<and>
      Delete (=) 3 example_cache = (Return None, c') \<and>
      cache c' = map_delete (=) (cache example_cache) 3 \<and> \<not> Contains (=) 3 c' \<and>
      \<not> linked (lruList c') r \<and>
      nodes_of (lruList c') = filter (\<lambda>x. x \<noteq> r) (nodes_of (lruList example_cache)) \<and>
      Size c' = Size example_cache - 1)"
proof -
  have a: "\<not> Contains (=) 7 example_cache" by code_simp
  have p: "Contains (=) 3 example_cache" by code_simp
  from Delete_absent_present[OF reach_example_cache symp_eq transp_eq, of 7] a
  have miss: "Delete (=) 7 example_cache = (Return (Some (NotFound 7)), example_cache)" by simp
  from Delete_absent_present[OF reach_example_cache symp_eq transp_eq, of 3] p
  show ?thesis using reach_example_cache a miss by simp
qed




end
